theory Spec2Isabelle
  imports Main "HOL-Library.Monad_Syntax" "HOL-Library.Multiset"
begin

section \<open>Data model\<close>

text \<open>
  The queue of \<^verbatim>\<open>priority_queue.go\<close> stores pointers to items; the handle that
  \<^verbatim>\<open>Enqueue\<close> returns is such a pointer, which the caller keeps and later passes to
  \<^verbatim>\<open>UpdatePriority\<close> and \<^verbatim>\<open>Remove\<close>. The pointer is shared, so the model has an explicit
  object store: an address is a natural number, \<open>objs\<close> maps the allocated addresses to
  items, and \<open>nxt\<close> is the next address that an allocation hands out. The backing slice
  \<open>items\<close> is a list of addresses. Go's \<^verbatim>\<open>int\<close> is modelled by \<open>int\<close>: priorities and
  comparator results are only stored and compared, never computed with.

  A result of type \<open>option\<close> is \<open>None\<close> where the Go code panics (an index out of
  range, a nil pointer). The lock is not modelled: each operation holds it from start to
  end, so the operations are the atomic steps of a sequential state machine. The two
  read-only renderings \<^verbatim>\<open>ToSlice\<close> and \<^verbatim>\<open>String\<close> are left out.
\<close>

record 'a Item =
  Value :: 'a
  Priority :: int
  Index :: int

type_synonym addr = nat

type_synonym 'a Comparator = "'a \<Rightarrow> 'a \<Rightarrow> int"

record 'a PriorityQueue =
  items :: "addr list"
  comparator :: "'a Comparator option"
  isMaxHeap :: bool
  objs :: "addr \<rightharpoonup> 'a Item"
  nxt :: addr

text \<open>The \<^verbatim>\<open>(T, bool)\<close> results: \<open>NotFound\<close> is \<^verbatim>\<open>(zero, false)\<close>, \<open>Found v\<close> is
  \<^verbatim>\<open>(v, true)\<close>.\<close>

datatype 'a found = NotFound | Found 'a

section \<open>The heap.Interface methods\<close>

text \<open>\<^verbatim>\<open>Len\<close>, \<^verbatim>\<open>Less\<close>, \<^verbatim>\<open>Swap\<close>, \<^verbatim>\<open>Push\<close> and \<^verbatim>\<open>Pop\<close> of \<^verbatim>\<open>priority_queue.go\<close>, lines 58 to 104.\<close>

definition Len :: "'a PriorityQueue \<Rightarrow> nat" where
  "Len q = length (items q)"

text \<open>\<^verbatim>\<open>*pq.items[i]\<close>: a panic when the index is out of range or the pointer is nil.\<close>

definition item_at :: "'a PriorityQueue \<Rightarrow> nat \<Rightarrow> 'a Item option" where
  "item_at q i = (if i < length (items q) then objs q (items q ! i) else None)"

definition Less :: "'a PriorityQueue \<Rightarrow> nat \<Rightarrow> nat \<Rightarrow> bool option" where
  "Less q i j =
     (case comparator q of
        Some cmp \<Rightarrow>
          do { a \<leftarrow> item_at q i;
               b \<leftarrow> item_at q j;
               let result = cmp (Value a) (Value b);
               if isMaxHeap q then Some (result > 0) else Some (result < 0) }
      | None \<Rightarrow>
          do { a \<leftarrow> item_at q i;
               b \<leftarrow> item_at q j;
               if isMaxHeap q then Some (Priority a > Priority b)
               else Some (Priority a < Priority b) })"

text \<open>\<^verbatim>\<open>p.Index = v\<close> through the pointer \<open>p\<close>.\<close>

definition set_Index :: "'a PriorityQueue \<Rightarrow> addr \<Rightarrow> int \<Rightarrow> 'a PriorityQueue option" where
  "set_Index q p v =
     (case objs q p of
        None \<Rightarrow> None
      | Some it \<Rightarrow> Some (q\<lparr>objs := (objs q)(p \<mapsto> it\<lparr>Index := v\<rparr>)\<rparr>))"

definition Swap :: "'a PriorityQueue \<Rightarrow> nat \<Rightarrow> nat \<Rightarrow> 'a PriorityQueue option" where
  "Swap q i j =
     (let xs = items q in
      if i < length xs \<and> j < length xs then
        do { let q1 = q\<lparr>items := xs[i := xs ! j, j := xs ! i]\<rparr>;
             q2 \<leftarrow> set_Index q1 (items q1 ! i) (int i);
             set_Index q2 (items q2 ! j) (int j) }
      else None)"

definition Push :: "'a PriorityQueue \<Rightarrow> addr \<Rightarrow> 'a PriorityQueue option" where
  "Push q x =
     do { let n = length (items q);
          q1 \<leftarrow> set_Index q x (int n);
          Some (q1\<lparr>items := items q1 @ [x]\<rparr>) }"

text \<open>\<^verbatim>\<open>Pop\<close> reads \<^verbatim>\<open>old[n-1]\<close>, which panics on an empty slice. The slot it sets to
  nil lies beyond the new length of the slice and is not visible afterwards.\<close>

definition Pop :: "'a PriorityQueue \<Rightarrow> (addr \<times> 'a PriorityQueue) option" where
  "Pop q =
     (let old = items q; n = length old in
      if n = 0 then None
      else do { let item = old ! (n - 1);
                q1 \<leftarrow> set_Index q item (- 1);
                Some (item, q1\<lparr>items := take (n - 1) old\<rparr>) })"

section \<open>container/heap\<close>

text \<open>
  The queue calls \<^verbatim>\<open>heap.Init\<close>, \<^verbatim>\<open>heap.Push\<close>, \<^verbatim>\<open>heap.Pop\<close>, \<^verbatim>\<open>heap.Remove\<close> and
  \<^verbatim>\<open>heap.Fix\<close> of Go's standard package \<^verbatim>\<open>container/heap\<close>. The package is imported, not
  part of the repository, so its functions are modelled from the description the spec
  gives of the heap core (section 4.1): sift up, sift down, \<open>push_raw\<close>, \<open>pop_raw\<close>,
  \<open>fix\<close> and \<open>remove_at\<close>. Where the spec leaves the order of two steps open or calls
  two orders equivalent, the definitions take the order of the package: \<open>fix\<close> and
  \<open>remove_at\<close> sift down first and sift up only if the element did not move, and
  \<open>pop_raw\<close> and \<open>remove_at\<close> sift over the indices below the last one before \<^verbatim>\<open>Pop\<close>
  cuts the last element off. Indices are natural numbers.
\<close>

text \<open>
  Modelled from the spec: sift up (\<^verbatim>\<open>up\<close> of \<^verbatim>\<open>container/heap\<close>, not under \<^verbatim>\<open>src/\<close>).
  While the element at \<open>j\<close> outranks its parent at \<open>(j - 1) / 2\<close>, exchange the two and
  continue from the parent; stop at the root or at a parent that it does not outrank.
  The parent of the root is \<open>(0 - 1) div 2 = 0\<close>, as with Go's truncating division, and
  that ends the loop: \<^verbatim>\<open>if i == j || !h.Less(j, i) { break }\<close>.
\<close>

function up :: "'a PriorityQueue \<Rightarrow> nat \<Rightarrow> 'a PriorityQueue option" where
  "up q j =
     (let i = (j - 1) div 2 in
      if i = j then Some q
      else case Less q j i of
             None \<Rightarrow> None
           | Some l \<Rightarrow>
               if \<not> l then Some q
               else case Swap q i j of
                      None \<Rightarrow> None
                    | Some q' \<Rightarrow> up q' i)"
  by pat_completeness auto
termination
  by (relation "measure (\<lambda>(q, j). j)") auto

text \<open>
  Modelled from the spec: sift down (the loop of \<^verbatim>\<open>down\<close> of \<^verbatim>\<open>container/heap\<close>, not
  under \<^verbatim>\<open>src/\<close>) over the indices below \<open>n\<close>. Stop when the element at \<open>i\<close> has no
  child below \<open>n\<close>; otherwise take the left child \<open>2i+1\<close>, or the right child \<open>2i+2\<close>
  when it is below \<open>n\<close> and outranks the left one; stop if that child does not outrank
  the element, else exchange the two and continue from the child. The result is the
  index where the element came to rest.
\<close>

function down_loop :: "'a PriorityQueue \<Rightarrow> nat \<Rightarrow> nat \<Rightarrow> (nat \<times> 'a PriorityQueue) option" where
  "down_loop q i n =
     (let j1 = 2 * i + 1 in
      if j1 \<ge> n then Some (i, q)
      else case (if j1 + 1 < n then Less q (j1 + 1) j1 else Some False) of
             None \<Rightarrow> None
           | Some r \<Rightarrow>
               let j = (if r then j1 + 1 else j1) in
               case Less q j i of
                 None \<Rightarrow> None
               | Some l \<Rightarrow>
                   if \<not> l then Some (i, q)
                   else case Swap q i j of
                          None \<Rightarrow> None
                        | Some q' \<Rightarrow> down_loop q' j n)"
  by pat_completeness auto
termination
  by (relation "measure (\<lambda>(q, i, n). n - i)") (auto split: if_splits)

declare up.simps [simp del] down_loop.simps [simp del]

text \<open>
  Modelled from the spec: \<^verbatim>\<open>down\<close> of \<^verbatim>\<open>container/heap\<close> (not under \<^verbatim>\<open>src/\<close>) returns
  whether the element moved, \<^verbatim>\<open>return i > i0\<close>.
\<close>

definition down :: "'a PriorityQueue \<Rightarrow> nat \<Rightarrow> nat \<Rightarrow> (bool \<times> 'a PriorityQueue) option" where
  "down q i0 n = map_option (\<lambda>(i, q'). (i > i0, q')) (down_loop q i0 n)"

text \<open>
  Modelled from the spec: \<^verbatim>\<open>heap.Init\<close> of \<^verbatim>\<open>container/heap\<close> (not under \<^verbatim>\<open>src/\<close>)
  establishes the invariant by sifting down every index that has a child, from the
  last such index to the root: \<^verbatim>\<open>for i := n/2 - 1; i >= 0; i-- { down(h, i, n) }\<close>. The
  queue calls it on empty slices only, where the loop does not run.
\<close>

fun heap_Init_loop :: "'a PriorityQueue \<Rightarrow> nat list \<Rightarrow> nat \<Rightarrow> 'a PriorityQueue option" where
  "heap_Init_loop q [] n = Some q"
| "heap_Init_loop q (i # is) n =
     (case down q i n of None \<Rightarrow> None | Some (_, q') \<Rightarrow> heap_Init_loop q' is n)"

definition heap_Init :: "'a PriorityQueue \<Rightarrow> 'a PriorityQueue option" where
  "heap_Init q = (let n = Len q in heap_Init_loop q (rev [0..<n div 2]) n)"

text \<open>
  Modelled from the spec: \<open>push_raw\<close> (\<^verbatim>\<open>heap.Push\<close> of \<^verbatim>\<open>container/heap\<close>, not under
  \<^verbatim>\<open>src/\<close>) appends the item with the queue's \<^verbatim>\<open>Push\<close> and sifts it up from the last
  index.
\<close>

definition heap_Push :: "'a PriorityQueue \<Rightarrow> addr \<Rightarrow> 'a PriorityQueue option" where
  "heap_Push q x = do { q1 \<leftarrow> Push q x; up q1 (Len q1 - 1) }"

text \<open>
  Modelled from the spec: \<open>pop_raw\<close> (\<^verbatim>\<open>heap.Pop\<close> of \<^verbatim>\<open>container/heap\<close>, not under
  \<^verbatim>\<open>src/\<close>) requires a non-empty heap; it exchanges the root with the last element,
  sifts the new root down over the indices below the last one, and removes the last
  element with the queue's \<^verbatim>\<open>Pop\<close>. On an empty heap the exchange is out of range.
\<close>

definition heap_Pop :: "'a PriorityQueue \<Rightarrow> (addr \<times> 'a PriorityQueue) option" where
  "heap_Pop q =
     (if Len q = 0 then None
      else do { let n = Len q - 1;
                q1 \<leftarrow> Swap q 0 n;
                (_, q2) \<leftarrow> down q1 0 n;
                Pop q2 })"

text \<open>
  Modelled from the spec: \<open>remove_at\<close> (\<^verbatim>\<open>heap.Remove\<close> of \<^verbatim>\<open>container/heap\<close>, not under
  \<^verbatim>\<open>src/\<close>) requires an index in range. If the index is the last one, the element is
  just cut off; otherwise it is exchanged with the last element, the element now at the
  index is repaired over the indices below the last one (sift down, and sift up if it did
  not move), and the last element is removed with the queue's \<^verbatim>\<open>Pop\<close>.
\<close>

definition heap_Remove :: "'a PriorityQueue \<Rightarrow> nat \<Rightarrow> (addr \<times> 'a PriorityQueue) option" where
  "heap_Remove q i =
     (if Len q = 0 then None
      else do { let n = Len q - 1;
                q3 \<leftarrow> (if n \<noteq> i then
                         do { q1 \<leftarrow> Swap q i n;
                              (moved, q2) \<leftarrow> down q1 i n;
                              if \<not> moved then up q2 i else Some q2 }
                       else Some q);
                Pop q3 })"

text \<open>
  Modelled from the spec: \<open>fix\<close> (\<^verbatim>\<open>heap.Fix\<close> of \<^verbatim>\<open>container/heap\<close>, not under \<^verbatim>\<open>src/\<close>)
  repairs the invariant around one index whose key changed: sift down, and sift up if
  the element did not move.
\<close>

definition heap_Fix :: "'a PriorityQueue \<Rightarrow> nat \<Rightarrow> 'a PriorityQueue option" where
  "heap_Fix q i =
     do { (moved, q1) \<leftarrow> down q i (Len q);
          if \<not> moved then up q1 i else Some q1 }"

section \<open>The public operations\<close>

text \<open>A Go function value may be nil, so the comparator argument is an option;
  \<^verbatim>\<open>NewWithComparator(nil, m)\<close> gives the built-in ordering.\<close>

definition New :: "'a PriorityQueue option" where
  "New = heap_Init \<lparr>items = [], comparator = None, isMaxHeap = False,
                    objs = Map.empty, nxt = 0\<rparr>"

definition NewMax :: "'a PriorityQueue option" where
  "NewMax = heap_Init \<lparr>items = [], comparator = None, isMaxHeap = True,
                       objs = Map.empty, nxt = 0\<rparr>"

definition NewWithComparator :: "'a Comparator option \<Rightarrow> bool \<Rightarrow> 'a PriorityQueue option" where
  "NewWithComparator cmp m = heap_Init \<lparr>items = [], comparator = cmp, isMaxHeap = m,
                                        objs = Map.empty, nxt = 0\<rparr>"

text \<open>\<^verbatim>\<open>&Item[T]{Value: value, Priority: priority}\<close> allocates a fresh item whose
  \<^verbatim>\<open>Index\<close> is zero until \<^verbatim>\<open>Push\<close> sets it; the address is the handle returned.\<close>

definition Enqueue :: "'a PriorityQueue \<Rightarrow> 'a \<Rightarrow> int \<Rightarrow> (addr \<times> 'a PriorityQueue) option" where
  "Enqueue q v priority =
     do { let item = nxt q;
          let q1 = q\<lparr>objs := (objs q)(item \<mapsto> \<lparr>Value = v, Priority = priority, Index = 0\<rparr>),
                     nxt := Suc item\<rparr>;
          q2 \<leftarrow> heap_Push q1 item;
          Some (item, q2) }"

definition Dequeue :: "'a PriorityQueue \<Rightarrow> ('a found \<times> 'a PriorityQueue) option" where
  "Dequeue q =
     (if length (items q) = 0 then Some (NotFound, q)
      else do { (item, q1) \<leftarrow> heap_Pop q;
                it \<leftarrow> objs q1 item;
                Some (Found (Value it), q1) })"

definition Peek :: "'a PriorityQueue \<Rightarrow> ('a found \<times> 'a PriorityQueue) option" where
  "Peek q =
     (if length (items q) = 0 then Some (NotFound, q)
      else do { it \<leftarrow> item_at q 0;
                Some (Found (Value it), q) })"

definition IsEmpty :: "'a PriorityQueue \<Rightarrow> bool" where
  "IsEmpty q = (length (items q) = 0)"

definition Size :: "'a PriorityQueue \<Rightarrow> nat" where
  "Size q = Len q"

text \<open>\<^verbatim>\<open>pq.items = pq.items[:0]\<close> followed by \<^verbatim>\<open>heap.Init\<close>; the items themselves are
  not written.\<close>

definition Clear :: "'a PriorityQueue \<Rightarrow> 'a PriorityQueue option" where
  "Clear q = heap_Init (q\<lparr>items := []\<rparr>)"

definition UpdatePriority :: "'a PriorityQueue \<Rightarrow> addr \<Rightarrow> int \<Rightarrow> 'a PriorityQueue option" where
  "UpdatePriority q item newPriority =
     do { it \<leftarrow> objs q item;
          if Index it < 0 \<or> Index it \<ge> int (length (items q)) then Some q
          else do { let q1 = q\<lparr>objs := (objs q)(item \<mapsto> it\<lparr>Priority := newPriority\<rparr>)\<rparr>;
                    heap_Fix q1 (nat (Index it)) } }"

definition Remove :: "'a PriorityQueue \<Rightarrow> addr \<Rightarrow> ('a found \<times> 'a PriorityQueue) option" where
  "Remove q item =
     do { it \<leftarrow> objs q item;
          if Index it < 0 \<or> Index it \<ge> int (length (items q)) then Some (NotFound, q)
          else do { (removed, q1) \<leftarrow> heap_Remove q (nat (Index it));
                    r \<leftarrow> objs q1 removed;
                    Some (Found (Value r), q1) } }"

section \<open>Operation sequences\<close>

text \<open>A caller's script: the operations of the public interface that change or read the
  queue, with handles given by their addresses. The first \<^verbatim>\<open>Enqueue\<close> on a new queue
  returns the handle \<open>0\<close>, the next one \<open>1\<close>, and so on.\<close>

datatype 'a op =
    OpEnqueue 'a int
  | OpDequeue
  | OpPeek
  | OpUpdatePriority addr int
  | OpRemove addr
  | OpClear

fun exec :: "'a op \<Rightarrow> 'a PriorityQueue \<Rightarrow> 'a PriorityQueue option" where
  "exec (OpEnqueue v p) q = map_option snd (Enqueue q v p)"
| "exec OpDequeue q = map_option snd (Dequeue q)"
| "exec OpPeek q = map_option snd (Peek q)"
| "exec (OpUpdatePriority h p) q = UpdatePriority q h p"
| "exec (OpRemove h) q = map_option snd (Remove q h)"
| "exec OpClear q = Clear q"

fun run :: "'a op list \<Rightarrow> 'a PriorityQueue \<Rightarrow> 'a PriorityQueue option" where
  "run [] q = Some q"
| "run (x # xs) q = (case exec x q of None \<Rightarrow> None | Some q' \<Rightarrow> run xs q')"

text \<open>Every handle of a script points to an item allocated before the operation that
  uses it: \<open>k\<close> is the number of items allocated so far.\<close>

fun handles_allocated :: "'a op list \<Rightarrow> nat \<Rightarrow> bool" where
  "handles_allocated [] k = True"
| "handles_allocated (OpEnqueue v p # xs) k = handles_allocated xs (Suc k)"
| "handles_allocated (OpUpdatePriority h p # xs) k = (h < k \<and> handles_allocated xs k)"
| "handles_allocated (OpRemove h # xs) k = (h < k \<and> handles_allocated xs k)"
| "handles_allocated (x # xs) k = handles_allocated xs k"

fun enqueue_all :: "('a \<times> int) list \<Rightarrow> 'a PriorityQueue \<Rightarrow> 'a PriorityQueue option" where
  "enqueue_all [] q = Some q"
| "enqueue_all ((v, p) # xs) q =
     (case Enqueue q v p of None \<Rightarrow> None | Some (_, q') \<Rightarrow> enqueue_all xs q')"

fun dequeue_n :: "nat \<Rightarrow> 'a PriorityQueue \<Rightarrow> ('a found list \<times> 'a PriorityQueue) option" where
  "dequeue_n 0 q = Some ([], q)"
| "dequeue_n (Suc k) q =
     (case Dequeue q of
        None \<Rightarrow> None
      | Some (r, q') \<Rightarrow>
          (case dequeue_n k q' of None \<Rightarrow> None | Some (rs, q'') \<Rightarrow> Some (r # rs, q'')))"

fun Peek_repeat :: "nat \<Rightarrow> 'a PriorityQueue \<Rightarrow> ('a found list \<times> 'a PriorityQueue) option" where
  "Peek_repeat 0 q = Some ([], q)"
| "Peek_repeat (Suc k) q =
     (case Peek q of
        None \<Rightarrow> None
      | Some (r, q') \<Rightarrow>
          (case Peek_repeat k q' of None \<Rightarrow> None | Some (rs, q'') \<Rightarrow> Some (r # rs, q'')))"

section \<open>Invariants\<close>

text \<open>The ordering policy as the spec states it (section 4.2), on the value and priority
  of two elements: whether the first strictly outranks the second. With the built-in
  numeric ordering the smaller priority outranks in ascending mode and the larger one in
  descending mode; with a custom comparator the first outranks the second when the
  comparator applied to their values is negative in ascending mode, positive in
  descending mode. It is written from the spec, apart from \<^verbatim>\<open>Less\<close>, to state what
  \<^verbatim>\<open>Less\<close> and the heap have to achieve.\<close>

definition entry :: "'a Item \<Rightarrow> 'a \<times> int" where
  "entry it = (Value it, Priority it)"

definition outranks :: "'a Comparator option \<Rightarrow> bool \<Rightarrow> 'a \<times> int \<Rightarrow> 'a \<times> int \<Rightarrow> bool" where
  "outranks c m x y =
     (case c of
        Some cmp \<Rightarrow> (if m then cmp (fst x) (fst y) > 0 else cmp (fst x) (fst y) < 0)
      | None \<Rightarrow> (if m then snd x > snd y else snd x < snd y))"

text \<open>The contract of an ordering (spec section 4.2, a total preorder with ties): nothing
  outranks what outranks it, and not outranking is transitive.\<close>

definition strict_weak :: "('k \<Rightarrow> 'k \<Rightarrow> bool) \<Rightarrow> bool" where
  "strict_weak R \<longleftrightarrow>
     (\<forall>x y. R x y \<longrightarrow> \<not> R y x) \<and> (\<forall>x y z. \<not> R x y \<longrightarrow> \<not> R y z \<longrightarrow> \<not> R x z)"

definition ordering_ok :: "'a PriorityQueue \<Rightarrow> bool" where
  "ordering_ok q \<longleftrightarrow> strict_weak (outranks (comparator q) (isMaxHeap q))"

text \<open>The slice holds distinct, allocated pointers, and the allocated addresses are
  those below \<open>nxt\<close>.\<close>

definition well_formed :: "'a PriorityQueue \<Rightarrow> bool" where
  "well_formed q \<longleftrightarrow>
     distinct (items q) \<and> set (items q) \<subseteq> dom (objs q) \<and> dom (objs q) = {p. p < nxt q}"

text \<open>Position tracking: the item at index \<open>i\<close> of the slice has \<^verbatim>\<open>Index\<close> \<open>i\<close>.\<close>

definition positions_ok :: "'a PriorityQueue \<Rightarrow> bool" where
  "positions_ok q \<longleftrightarrow>
     (\<forall>i < length (items q). map_option Index (objs q (items q ! i)) = Some (int i))"

text \<open>The heap invariant, with the comparisons made by \<^verbatim>\<open>Less\<close> itself: neither child
  of an index outranks the element there.\<close>

definition heap_invariant :: "'a PriorityQueue \<Rightarrow> bool" where
  "heap_invariant q \<longleftrightarrow>
     (\<forall>i < length (items q).
        (2 * i + 1 < length (items q) \<longrightarrow> Less q (2 * i + 1) i = Some False) \<and>
        (2 * i + 2 < length (items q) \<longrightarrow> Less q (2 * i + 2) i = Some False))"

text \<open>The heap invariant as the spec states it (sections 3 and 8), on the items in the
  store and with the ordering policy \<open>outranks\<close>: the element at index \<open>i\<close> and its
  child at index \<open>c\<close>, when there is one, are live items, and the child does not
  outrank the element; this for both children \<open>2i+1\<close> and \<open>2i+2\<close> of every index.\<close>

definition child_in_order :: "'a PriorityQueue \<Rightarrow> nat \<Rightarrow> nat \<Rightarrow> bool" where
  "child_in_order q i c \<longleftrightarrow>
     (c < length (items q) \<longrightarrow>
        (case objs q (items q ! i) of
           None \<Rightarrow> False
         | Some a \<Rightarrow>
             (case objs q (items q ! c) of
                None \<Rightarrow> False
              | Some b \<Rightarrow> \<not> outranks (comparator q) (isMaxHeap q) (entry b) (entry a))))"

definition heap_ordered :: "'a PriorityQueue \<Rightarrow> bool" where
  "heap_ordered q \<longleftrightarrow>
     (\<forall>i < length (items q). child_in_order q i (2 * i + 1) \<and> child_in_order q i (2 * i + 2))"

text \<open>The value and priority of the elements, in the order of the slice.\<close>

definition entries :: "'a PriorityQueue \<Rightarrow> ('a \<times> int) list" where
  "entries q = map (\<lambda>p. entry (the (objs q p))) (items q)"

text \<open>The same invariant on a list of keys, by parent index, over the first \<open>n\<close> indices;
  and the two weakenings that hold while one element is sifted up or down.\<close>

definition parent :: "nat \<Rightarrow> nat" where
  "parent c = (c - 1) div 2"

definition heap_upto :: "('k \<Rightarrow> 'k \<Rightarrow> bool) \<Rightarrow> 'k list \<Rightarrow> nat \<Rightarrow> bool" where
  "heap_upto R ks n \<longleftrightarrow> (\<forall>c. 0 < c \<and> c < n \<longrightarrow> \<not> R (ks ! c) (ks ! parent c))"

definition heap_but_up :: "('k \<Rightarrow> 'k \<Rightarrow> bool) \<Rightarrow> 'k list \<Rightarrow> nat \<Rightarrow> nat \<Rightarrow> bool" where
  "heap_but_up R ks n j \<longleftrightarrow>
     (\<forall>c. 0 < c \<and> c < n \<and> c \<noteq> j \<longrightarrow> \<not> R (ks ! c) (ks ! parent c)) \<and>
     (\<forall>c. 0 < c \<and> c < n \<and> parent c = j \<and> 0 < j \<longrightarrow> \<not> R (ks ! c) (ks ! parent j))"

definition heap_but_down :: "('k \<Rightarrow> 'k \<Rightarrow> bool) \<Rightarrow> 'k list \<Rightarrow> nat \<Rightarrow> nat \<Rightarrow> bool" where
  "heap_but_down R ks n i \<longleftrightarrow>
     (\<forall>c. 0 < c \<and> c < n \<and> parent c \<noteq> i \<longrightarrow> \<not> R (ks ! c) (ks ! parent c)) \<and>
     (\<forall>c. 0 < c \<and> c < n \<and> parent c = i \<and> 0 < i \<longrightarrow> \<not> R (ks ! c) (ks ! parent i))"

text \<open>What the sifting loops leave alone: the ordering, the allocator, the elements of
  the slice as a multiset, the value and priority of every item, and every item that is
  not in the slice.\<close>

definition rearranged :: "'a PriorityQueue \<Rightarrow> 'a PriorityQueue \<Rightarrow> bool" where
  "rearranged q q' \<longleftrightarrow>
     comparator q' = comparator q \<and> isMaxHeap q' = isMaxHeap q \<and> nxt q' = nxt q \<and>
     mset (items q') = mset (items q) \<and>
     (\<forall>p. map_option entry (objs q' p) = map_option entry (objs q p)) \<and>
     (\<forall>p. p \<notin> set (items q) \<longrightarrow> objs q' p = objs q p)"

text \<open>A handle that the queue has given up by \<^verbatim>\<open>Pop\<close>: its item is marked with \<^verbatim>\<open>Index\<close>
  \<open>-1\<close> and is not in the slice.\<close>

definition stale :: "'a PriorityQueue \<Rightarrow> addr \<Rightarrow> bool" where
  "stale q h \<longleftrightarrow> map_option Index (objs q h) = Some (- 1) \<and> h \<notin> set (items q)"

text \<open>A queue as one of the three constructors returns it.\<close>

definition constructed :: "'a PriorityQueue \<Rightarrow> bool" where
  "constructed q \<longleftrightarrow>
     New = Some q \<or> NewMax = Some q \<or> NewWithComparator (comparator q) (isMaxHeap q) = Some q"

section \<open>Example inputs\<close>

text \<open>The comparator of the repository's test of a custom ordering: strings by length.\<close>

definition lengthComparator :: "string Comparator" where
  "lengthComparator a b =
     (if length a < length b then - 1 else if length a > length b then 1 else 0)"

definition length_queue :: "string PriorityQueue" where
  "length_queue = \<lparr>items = [], comparator = Some lengthComparator, isMaxHeap = False,
                     objs = Map.empty, nxt = 0\<rparr>"

definition plain_queue :: "string PriorityQueue" where
  "plain_queue = \<lparr>items = [], comparator = None, isMaxHeap = False,
                    objs = Map.empty, nxt = 0\<rparr>"

definition example_script :: "string op list" where
  "example_script =
     [OpEnqueue ''hello'' 0, OpEnqueue ''hi'' 0, OpEnqueue ''goodbye'' 0,
      OpUpdatePriority 0 7, OpRemove 1, OpDequeue, OpClear,
      OpEnqueue ''again'' 1, OpRemove 0, OpPeek]"

text \<open>The state after \<^verbatim>\<open>New\<close>, \<^verbatim>\<open>Enqueue("a", 1)\<close>, \<^verbatim>\<open>Enqueue("b", 2)\<close> and one
  \<^verbatim>\<open>Dequeue\<close>: the handle \<open>0\<close> has been consumed, the handle \<open>1\<close> is live.\<close>

definition after_dequeue :: "string PriorityQueue" where
  "after_dequeue = \<lparr>items = [1], comparator = None, isMaxHeap = False,
      objs = [0 \<mapsto> \<lparr>Value = ''a'', Priority = 1, Index = - 1\<rparr>,
              1 \<mapsto> \<lparr>Value = ''b'', Priority = 2, Index = 0\<rparr>],
      nxt = 2\<rparr>"

text \<open>A comparator that breaks the contract: it puts each of two values before the other.\<close>

definition always_before :: "string Comparator" where
  "always_before a b = - 1"

text \<open>A script that ends on four elements, after a removal from the middle of the work
  and a priority update.\<close>

definition heap_script :: "string op list" where
  "heap_script =
     [OpEnqueue ''hello'' 0, OpEnqueue ''hi'' 0, OpEnqueue ''goodbye'' 0,
      OpEnqueue ''a'' 0, OpEnqueue ''abcd'' 0, OpRemove 3, OpUpdatePriority 0 7]"

section \<open>Heaps on lists of keys\<close>

lemma parent_less: "0 < c \<Longrightarrow> parent c < c"
  by (simp add: parent_def)

lemma parent_child1: "parent (2 * i + 1) = i"
  by (simp add: parent_def)

lemma parent_child2: "parent (2 * i + 2) = i"
  by (simp add: parent_def)

lemma parent_eq_iff: "0 < c \<Longrightarrow> parent c = i \<longleftrightarrow> c = 2 * i + 1 \<or> c = 2 * i + 2"
  unfolding parent_def by arith

lemma strict_weak_asym: "strict_weak R \<Longrightarrow> R x y \<Longrightarrow> \<not> R y x"
  unfolding strict_weak_def by blast

lemma strict_weak_trans: "strict_weak R \<Longrightarrow> \<not> R x y \<Longrightarrow> \<not> R y z \<Longrightarrow> \<not> R x z"
  unfolding strict_weak_def by blast

lemma up_stop:
  assumes "heap_but_up R ks n j" and "parent j = j \<or> \<not> R (ks ! j) (ks ! parent j)"
  shows "heap_upto R ks n"
  unfolding heap_upto_def
proof (intro allI impI)
  fix c assume c: "0 < c \<and> c < n"
  show "\<not> R (ks ! c) (ks ! parent c)"
  proof (cases "c = j")
    case True
    then have "parent j < j" using c by (simp add: parent_less)
    then have "\<not> R (ks ! j) (ks ! parent j)" using assms(2) by simp
    then show ?thesis using True by simp
  next
    case False
    with c assms(1) show ?thesis by (simp add: heap_but_up_def)
  qed
qed

lemma up_step:
  assumes sw: "strict_weak R"
    and hb: "heap_but_up R ks n j"
    and j: "0 < j" "j < n" "n \<le> length ks"
    and out: "R (ks ! j) (ks ! parent j)"
  shows "heap_but_up R (ks[parent j := ks ! j, j := ks ! parent j]) n (parent j)"
proof -
  let ?p = "parent j"
  let ?ks = "ks[?p := ks ! j, j := ks ! ?p]"
  have pj: "?p < j" using j by (simp add: parent_less)
  have nth: "\<And>k. k < n \<Longrightarrow> ?ks ! k = (if k = j then ks ! ?p else if k = ?p then ks ! j else ks ! k)"
    using j pj by (auto simp: nth_list_update)
  have old: "\<And>c. 0 < c \<Longrightarrow> c < n \<Longrightarrow> c \<noteq> j \<Longrightarrow> \<not> R (ks ! c) (ks ! parent c)"
    using hb by (simp add: heap_but_up_def)
  have gp: "\<And>c. 0 < c \<Longrightarrow> c < n \<Longrightarrow> parent c = j \<Longrightarrow> \<not> R (ks ! c) (ks ! ?p)"
    using hb j by (simp add: heap_but_up_def)
  have pn: "\<And>c. 0 < c \<Longrightarrow> c < n \<Longrightarrow> parent c < n"
    using parent_less by (meson less_trans)
  have a: "\<not> R (?ks ! c) (?ks ! parent c)" if c: "0 < c" "c < n" "c \<noteq> ?p" for c
  proof -
    have pc: "parent c < c" "parent c < n" using c parent_less pn by auto
    consider "c = j" | "c \<noteq> j" "parent c = ?p" | "c \<noteq> j" "parent c = j" | "c \<noteq> j" "parent c \<noteq> ?p" "parent c \<noteq> j"
      by blast
    then show ?thesis
    proof cases
      case 1
      then show ?thesis using nth [of j] nth [of ?p] j pj out sw
        by (auto dest: strict_weak_asym)
    next
      case 2
      have "\<not> R (ks ! ?p) (ks ! j)" using out sw by (auto dest: strict_weak_asym)
      moreover have "\<not> R (ks ! c) (ks ! ?p)" using old [of c] c 2 by simp
      ultimately have "\<not> R (ks ! c) (ks ! j)" using sw strict_weak_trans by metis
      then show ?thesis using nth [of c] nth [of "parent c"] c 2 pc pj by auto
    next
      case 3
      then show ?thesis using nth [of c] nth [of "parent c"] c pc pj gp [of c] by auto
    next
      case 4
      then show ?thesis using nth [of c] nth [of "parent c"] c pc old [of c] by auto
    qed
  qed
  have b: "\<not> R (?ks ! c) (?ks ! parent ?p)" if c: "0 < c" "c < n" "parent c = ?p" "0 < ?p" for c
  proof -
    have pp: "parent ?p < ?p" using c parent_less by auto
    have ppn: "parent ?p < n" "?p < n" using pp pj j by auto
    have g: "\<not> R (ks ! ?p) (ks ! parent ?p)" using old [of ?p] c pj j by simp
    have cp: "c \<noteq> ?p" "c \<noteq> parent ?p" using c parent_less [of c] pp by auto
    show ?thesis
    proof (cases "c = j")
      case True
      then show ?thesis using nth [of j] nth [of "parent ?p"] ppn pp pj j g by auto
    next
      case False
      have "\<not> R (ks ! c) (ks ! ?p)" using old [of c] c False by simp
      then have "\<not> R (ks ! c) (ks ! parent ?p)" using g sw strict_weak_trans by metis
      then show ?thesis using nth [of c] nth [of "parent ?p"] ppn pp pj c cp False by auto
    qed
  qed
  show ?thesis unfolding heap_but_up_def using a b by blast
qed


lemma down_stop:
  assumes "heap_but_down R ks n i"
    and "\<forall>c. 0 < c \<and> c < n \<and> parent c = i \<longrightarrow> \<not> R (ks ! c) (ks ! i)"
  shows "heap_upto R ks n"
  unfolding heap_upto_def
proof (intro allI impI)
  fix c assume c: "0 < c \<and> c < n"
  show "\<not> R (ks ! c) (ks ! parent c)"
  proof (cases "parent c = i")
    case True
    then show ?thesis using assms(2) c by blast
  next
    case False
    then show ?thesis using assms(1) c unfolding heap_but_down_def by blast
  qed
qed

lemma down_step:
  assumes sw: "strict_weak R"
    and hb: "heap_but_down R ks n i"
    and j: "parent j = i" "0 < j" "j < n" "n \<le> length ks"
    and best: "\<forall>c. 0 < c \<and> c < n \<and> parent c = i \<longrightarrow> \<not> R (ks ! c) (ks ! j)"
    and out: "R (ks ! j) (ks ! i)"
  shows "heap_but_down R (ks[i := ks ! j, j := ks ! i]) n j"
proof -
  let ?ks = "ks[i := ks ! j, j := ks ! i]"
  have ij: "i < j" using j parent_less [of j] by simp
  have nth: "\<And>k. k < n \<Longrightarrow> ?ks ! k = (if k = j then ks ! i else if k = i then ks ! j else ks ! k)"
    using j ij by (auto simp: nth_list_update)
  have old: "\<And>c. 0 < c \<Longrightarrow> c < n \<Longrightarrow> parent c \<noteq> i \<Longrightarrow> \<not> R (ks ! c) (ks ! parent c)"
    using hb unfolding heap_but_down_def by blast
  have gp: "\<And>c. 0 < c \<Longrightarrow> c < n \<Longrightarrow> parent c = i \<Longrightarrow> 0 < i \<Longrightarrow> \<not> R (ks ! c) (ks ! parent i)"
    using hb unfolding heap_but_down_def by blast
  have a: "\<not> R (?ks ! c) (?ks ! parent c)" if c: "0 < c" "c < n" "parent c \<noteq> j" for c
  proof -
    have pc: "parent c < c" "parent c < n" using c parent_less [of c] by auto
    consider "c = j" | "c \<noteq> j" "parent c = i" | "c = i" | "c \<noteq> j" "c \<noteq> i" "parent c \<noteq> i"
      by blast
    then show ?thesis
    proof cases
      case 1
      have "\<not> R (ks ! i) (ks ! j)" using out sw strict_weak_asym by metis
      then show ?thesis using 1 nth [of j] nth [of i] j ij by simp
    next
      case 2
      have "c \<noteq> i" using 2 pc by auto
      moreover have "\<not> R (ks ! c) (ks ! j)" using best c 2 by blast
      ultimately show ?thesis using 2 nth [of c] nth [of i] c ij j by simp
    next
      case 3
      have i0: "0 < i" using 3 c by simp
      have pi: "parent i < i" using i0 by (simp add: parent_less)
      have "\<not> R (ks ! j) (ks ! parent i)" using gp [of j] j i0 by simp
      then show ?thesis using 3 nth [of i] nth [of "parent i"] pi ij j c by simp
    next
      case 4
      have "\<not> R (ks ! c) (ks ! parent c)" using old [of c] c 4 by simp
      then show ?thesis using 4 nth [of c] nth [of "parent c"] c pc by simp
    qed
  qed
  have b: "\<not> R (?ks ! c) (?ks ! parent j)" if c: "0 < c" "c < n" "parent c = j" for c
  proof -
    have jc: "j < c" using c parent_less [of c] by simp
    have "parent c \<noteq> i" using c ij by simp
    then have "\<not> R (ks ! c) (ks ! j)" using old [of c] c by simp
    then show ?thesis using nth [of c] nth [of i] j ij jc c by simp
  qed
  show ?thesis unfolding heap_but_down_def using a b by blast
qed

lemma heap_imp_but_up:
  assumes "strict_weak R" and "heap_upto R ks n" and "j < n"
  shows "heap_but_up R ks n j"
  unfolding heap_but_up_def
proof (intro conjI allI impI)
  fix c assume "0 < c \<and> c < n \<and> c \<noteq> j"
  then show "\<not> R (ks ! c) (ks ! parent c)" using assms(2) unfolding heap_upto_def by blast
next
  fix c assume c: "0 < c \<and> c < n \<and> parent c = j \<and> 0 < j"
  have "\<not> R (ks ! c) (ks ! j)" using assms(2) c unfolding heap_upto_def by blast
  moreover have "\<not> R (ks ! j) (ks ! parent j)" using assms(2,3) c unfolding heap_upto_def by blast
  ultimately show "\<not> R (ks ! c) (ks ! parent j)" using assms(1) strict_weak_trans by metis
qed

lemma heap_imp_but_down:
  assumes "strict_weak R" and "heap_upto R ks n" and "i < n"
  shows "heap_but_down R ks n i"
  unfolding heap_but_down_def
proof (intro conjI allI impI)
  fix c assume "0 < c \<and> c < n \<and> parent c \<noteq> i"
  then show "\<not> R (ks ! c) (ks ! parent c)" using assms(2) unfolding heap_upto_def by blast
next
  fix c assume c: "0 < c \<and> c < n \<and> parent c = i \<and> 0 < i"
  have "\<not> R (ks ! c) (ks ! i)" using assms(2) c unfolding heap_upto_def by blast
  moreover have "\<not> R (ks ! i) (ks ! parent i)" using assms(2,3) c unfolding heap_upto_def by blast
  ultimately show "\<not> R (ks ! c) (ks ! parent i)" using assms(1) strict_weak_trans by metis
qed

lemma heap_upto_cong:
  assumes "\<forall>k<n. ks' ! k = ks ! k"
  shows "heap_upto R ks' n = heap_upto R ks n"
proof -
  have "\<And>c. 0 < c \<Longrightarrow> c < n \<Longrightarrow> ks' ! c = ks ! c \<and> ks' ! parent c = ks ! parent c"
    using assms parent_less by (meson less_trans)
  then show ?thesis unfolding heap_upto_def by auto
qed

lemma heap_upto_mono: "heap_upto R ks n \<Longrightarrow> m \<le> n \<Longrightarrow> heap_upto R ks m"
  unfolding heap_upto_def by auto

lemma key_change:
  assumes sw: "strict_weak R"
    and hp: "heap_upto R ks n"
    and i: "i < n"
    and same: "\<forall>k<n. k \<noteq> i \<longrightarrow> ks' ! k = ks ! k"
  shows "(heap_but_down R ks' n i \<and> (0 < i \<longrightarrow> \<not> R (ks' ! i) (ks' ! parent i)))
       \<or> (heap_but_up R ks' n i \<and> (\<forall>c. 0 < c \<and> c < n \<and> parent c = i \<longrightarrow> \<not> R (ks' ! c) (ks' ! i)))"
proof (cases "R (ks' ! i) (ks ! i)")
  case False
  have old: "\<And>c. 0 < c \<Longrightarrow> c < n \<Longrightarrow> \<not> R (ks ! c) (ks ! parent c)"
    using hp unfolding heap_upto_def by blast
  have par: "\<not> R (ks' ! i) (ks' ! parent i)" if "0 < i"
  proof -
    have "parent i < i" using that by (simp add: parent_less)
    then have "ks' ! parent i = ks ! parent i" using same i by simp
    moreover have "\<not> R (ks ! i) (ks ! parent i)" using old [of i] that i by simp
    ultimately show ?thesis using False sw strict_weak_trans by metis
  qed
  have a: "\<not> R (ks' ! c) (ks' ! parent c)" if c: "0 < c" "c < n" "parent c \<noteq> i" for c
  proof (cases "c = i")
    case True
    then show ?thesis using par c by simp
  next
    case False
    have "parent c < n" using c parent_less [of c] by simp
    then show ?thesis using same c False old [of c] by simp
  qed
  have b: "\<not> R (ks' ! c) (ks' ! parent i)" if c: "0 < c" "c < n" "parent c = i" "0 < i" for c
  proof -
    have ci: "i < c" using c parent_less [of c] by simp
    have pi: "parent i < i" using c by (simp add: parent_less)
    have "\<not> R (ks ! c) (ks ! i)" using old [of c] c by simp
    moreover have "\<not> R (ks ! i) (ks ! parent i)" using old [of i] c i by simp
    ultimately have "\<not> R (ks ! c) (ks ! parent i)" using sw strict_weak_trans by metis
    then show ?thesis using same c ci pi i by simp
  qed
  have "heap_but_down R ks' n i" unfolding heap_but_down_def using a b by blast
  then show ?thesis using par by blast
next
  case True
  have old: "\<And>c. 0 < c \<Longrightarrow> c < n \<Longrightarrow> \<not> R (ks ! c) (ks ! parent c)"
    using hp unfolding heap_upto_def by blast
  have nR: "\<not> R (ks ! i) (ks' ! i)" using True sw strict_weak_asym by metis
  have ch: "\<not> R (ks' ! c) (ks' ! i)" if c: "0 < c" "c < n" "parent c = i" for c
  proof -
    have ci: "i < c" using c parent_less [of c] by simp
    have "\<not> R (ks ! c) (ks ! i)" using old [of c] c by simp
    then have "\<not> R (ks ! c) (ks' ! i)" using nR sw strict_weak_trans by metis
    then show ?thesis using same c ci by simp
  qed
  have a: "\<not> R (ks' ! c) (ks' ! parent c)" if c: "0 < c" "c < n" "c \<noteq> i" for c
  proof (cases "parent c = i")
    case True
    then show ?thesis using ch [of c] c by simp
  next
    case False
    have "parent c < n" using c parent_less [of c] by simp
    then show ?thesis using same c False old [of c] by simp
  qed
  have b: "\<not> R (ks' ! c) (ks' ! parent i)" if c: "0 < c" "c < n" "parent c = i" "0 < i" for c
  proof -
    have ci: "i < c" using c parent_less [of c] by simp
    have pi: "parent i < i" using c by (simp add: parent_less)
    have "\<not> R (ks ! c) (ks ! i)" using old [of c] c by simp
    moreover have "\<not> R (ks ! i) (ks ! parent i)" using old [of i] c i by simp
    ultimately have "\<not> R (ks ! c) (ks ! parent i)" using sw strict_weak_trans by metis
    then show ?thesis using same c ci pi i by simp
  qed
  have "heap_but_up R ks' n i" unfolding heap_but_up_def using a b by blast
  then show ?thesis using ch by blast
qed

lemma root_min:
  assumes sw: "strict_weak R" and hp: "heap_upto R ks n"
  shows "i < n \<Longrightarrow> \<not> R (ks ! i) (ks ! 0)"
proof (induction i rule: less_induct)
  case (less i)
  show ?case
  proof (cases "i = 0")
    case True
    then show ?thesis using sw strict_weak_asym by metis
  next
    case False
    then have p: "parent i < i" by (simp add: parent_less)
    have "\<not> R (ks ! parent i) (ks ! 0)" using less p by simp
    moreover have "\<not> R (ks ! i) (ks ! parent i)" using hp False less.prems unfolding heap_upto_def by blast
    ultimately show ?thesis using sw strict_weak_trans by metis
  qed
qed

lemma heap_but_up_append:
  assumes "heap_upto R ks n" and "n = length ks"
  shows "heap_but_up R (ks @ [k]) (Suc n) n"
  unfolding heap_but_up_def
proof (intro conjI allI impI)
  fix c assume c: "0 < c \<and> c < Suc n \<and> c \<noteq> n"
  then have "c < n" "parent c < n" using parent_less [of c] by auto
  then show "\<not> R ((ks @ [k]) ! c) ((ks @ [k]) ! parent c)"
    using assms c unfolding heap_upto_def by (simp add: nth_append)
next
  fix c assume c: "0 < c \<and> c < Suc n \<and> parent c = n \<and> 0 < n"
  then have "n < c" using parent_less [of c] by auto
  then show "\<not> R ((ks @ [k]) ! c) ((ks @ [k]) ! parent n)" using c by simp
qed

section \<open>The primitives on a well-formed queue\<close>

lemma rearranged_refl: "rearranged q q"
  by (simp add: rearranged_def)

lemma rearranged_set: "rearranged q q' \<Longrightarrow> set (items q') = set (items q)"
  unfolding rearranged_def by (metis mset_eq_setD)

lemma rearranged_length: "rearranged q q' \<Longrightarrow> length (items q') = length (items q)"
  unfolding rearranged_def by (metis mset_eq_length)

lemma rearranged_trans: "rearranged q q' \<Longrightarrow> rearranged q' q'' \<Longrightarrow> rearranged q q''"
  using rearranged_set [of q q'] unfolding rearranged_def by simp

lemma rearranged_dom: "rearranged q q' \<Longrightarrow> dom (objs q') = dom (objs q)"
proof -
  assume r: "rearranged q q'"
  have "\<And>p. (objs q' p = None) = (objs q p = None)"
  proof -
    fix p
    have "map_option entry (objs q' p) = map_option entry (objs q p)"
      using r unfolding rearranged_def by blast
    then show "(objs q' p = None) = (objs q p = None)"
      by (metis map_option_is_None)
  qed
  then show ?thesis unfolding dom_def by simp
qed

lemma rearranged_well_formed: "rearranged q q' \<Longrightarrow> well_formed q \<Longrightarrow> well_formed q'"
proof -
  assume r: "rearranged q q'" and w: "well_formed q"
  have "distinct (items q')"
    using r w unfolding rearranged_def well_formed_def by (metis mset_eq_imp_distinct_iff)
  moreover have "set (items q') \<subseteq> dom (objs q')"
    using rearranged_set [OF r] rearranged_dom [OF r] w unfolding well_formed_def by blast
  moreover have "dom (objs q') = {p. p < nxt q'}"
    using rearranged_dom [OF r] r w unfolding well_formed_def rearranged_def by simp
  ultimately show ?thesis unfolding well_formed_def by simp
qed

lemma rearranged_entry: "rearranged q q' \<Longrightarrow> entry (the (objs q' p)) = entry (the (objs q p))"
proof -
  assume "rearranged q q'"
  then have "map_option entry (objs q' p) = map_option entry (objs q p)"
    unfolding rearranged_def by blast
  then show ?thesis by (cases "objs q' p"; cases "objs q p") auto
qed

lemma rearranged_ordering: "rearranged q q' \<Longrightarrow> ordering_ok q' = ordering_ok q"
  unfolding rearranged_def ordering_ok_def by simp

lemma item_at_Some:
  "well_formed q \<Longrightarrow> i < length (items q) \<Longrightarrow> \<exists>it. item_at q i = Some it \<and> objs q (items q ! i) = Some it"
  unfolding well_formed_def item_at_def by (auto simp: subset_iff dom_def)

lemma entries_nth: "i < length (items q) \<Longrightarrow> entries q ! i = entry (the (objs q (items q ! i)))"
  by (simp add: entries_def)

lemma length_entries: "length (entries q) = length (items q)"
  by (simp add: entries_def)

lemma Less_outranks:
  assumes "well_formed q" and "i < length (items q)" and "j < length (items q)"
  shows "Less q i j = Some (outranks (comparator q) (isMaxHeap q) (entries q ! i) (entries q ! j))"
proof -
  obtain a where a: "item_at q i = Some a" "objs q (items q ! i) = Some a"
    using item_at_Some [OF assms(1,2)] by blast
  obtain b where b: "item_at q j = Some b" "objs q (items q ! j) = Some b"
    using item_at_Some [OF assms(1,3)] by blast
  show ?thesis
    using a b assms(2,3)
    by (simp add: Less_def outranks_def entries_nth entry_def Let_def split: option.split)
qed

lemma set_Index_Some:
  "objs q p = Some it \<Longrightarrow> set_Index q p v = Some (q\<lparr>objs := (objs q)(p \<mapsto> it\<lparr>Index := v\<rparr>)\<rparr>)"
  by (simp add: set_Index_def)

lemma Swap_result:
  assumes w: "well_formed q" and i: "i < length (items q)" and j: "j < length (items q)"
  shows "\<exists>q'. Swap q i j = Some q' \<and> rearranged q q'
           \<and> items q' = (items q)[i := items q ! j, j := items q ! i]
           \<and> (\<forall>p. p \<noteq> items q ! i \<and> p \<noteq> items q ! j \<longrightarrow> objs q' p = objs q p)
           \<and> map_option Index (objs q' (items q ! i)) = Some (int j)
           \<and> map_option Index (objs q' (items q ! j)) = Some (int i)"
proof -
  let ?xs = "items q"
  let ?ys = "?xs[i := ?xs ! j, j := ?xs ! i]"
  have yi: "?ys ! i = ?xs ! j" and yj: "?ys ! j = ?xs ! i"
    using i j by (auto simp: nth_list_update)
  obtain a where a: "objs q (?xs ! i) = Some a" using item_at_Some [OF w i] by blast
  obtain b where b: "objs q (?xs ! j) = Some b" using item_at_Some [OF w j] by blast
  have d: "?xs ! i = ?xs ! j \<longleftrightarrow> i = j"
    using w i j unfolding well_formed_def by (simp add: nth_eq_iff_index_eq)
  define o1 where "o1 = (objs q)(?xs ! j \<mapsto> b\<lparr>Index := int i\<rparr>)"
  define a' where "a' = the (o1 (?xs ! i))"
  define q' where "q' = q\<lparr>items := ?ys, objs := o1(?xs ! i \<mapsto> a'\<lparr>Index := int j\<rparr>)\<rparr>"
  have o1i: "o1 (?xs ! i) = Some a'" unfolding a'_def o1_def using a by simp
  have sw: "Swap q i j = Some q'"
    using i j yi yj b o1i unfolding Swap_def q'_def o1_def
    by (simp add: Let_def set_Index_def)
  have ea: "entry a' = entry a"
    using a b unfolding a'_def o1_def by (auto simp: entry_def)
  have ms: "mset ?ys = mset ?xs"
    using i j by (simp add: mset_swap)
  have re: "rearranged q q'"
    unfolding rearranged_def q'_def o1_def
    using ms a b ea i j by (auto simp: entry_def)
  have fr: "\<forall>p. p \<noteq> ?xs ! i \<and> p \<noteq> ?xs ! j \<longrightarrow> objs q' p = objs q p"
    unfolding q'_def o1_def by simp
  have ii: "map_option Index (objs q' (?xs ! i)) = Some (int j)"
    unfolding q'_def by simp
  have jj: "map_option Index (objs q' (?xs ! j)) = Some (int i)"
    unfolding q'_def o1_def using d by auto
  show ?thesis using sw re fr ii jj unfolding q'_def by auto
qed

lemma Swap_entries:
  assumes "rearranged q q'" and "items q' = (items q)[i := items q ! j, j := items q ! i]"
    and "i < length (items q)" and "j < length (items q)"
  shows "entries q' = (entries q)[i := entries q ! j, j := entries q ! i]"
proof -
  have "entries q' = map (\<lambda>p. entry (the (objs q p))) (items q')"
    unfolding entries_def using rearranged_entry [OF assms(1)] by simp
  then show ?thesis
    using assms(2,3,4) by (simp add: entries_def map_update)
qed

lemma Swap_positions:
  assumes w: "well_formed q" and po: "positions_ok q"
    and i: "i < length (items q)" and j: "j < length (items q)"
    and s: "Swap q i j = Some q'"
  shows "positions_ok q'"
proof -
  let ?xs = "items q"
  obtain q'' where q'': "Swap q i j = Some q''"
      "items q'' = ?xs[i := ?xs ! j, j := ?xs ! i]"
      "\<forall>p. p \<noteq> ?xs ! i \<and> p \<noteq> ?xs ! j \<longrightarrow> objs q'' p = objs q p"
      "map_option Index (objs q'' (?xs ! i)) = Some (int j)"
      "map_option Index (objs q'' (?xs ! j)) = Some (int i)"
    using Swap_result [OF w i j] by blast
  have eq: "q'' = q'" using s q''(1) by simp
  have d: "\<And>k l. k < length ?xs \<Longrightarrow> l < length ?xs \<Longrightarrow> ?xs ! k = ?xs ! l \<longleftrightarrow> k = l"
    using w unfolding well_formed_def by (simp add: nth_eq_iff_index_eq)
  have "map_option Index (objs q'' (items q'' ! k)) = Some (int k)" if k: "k < length ?xs" for k
  proof -
    consider "k = j" | "k \<noteq> j" "k = i" | "k \<noteq> j" "k \<noteq> i" by blast
    then show ?thesis
    proof cases
      case 1
      then show ?thesis using q''(2,4) i j by simp
    next
      case 2
      then show ?thesis using q''(2,5) i j by simp
    next
      case 3
      then have "items q'' ! k = ?xs ! k" using q''(2) by simp
      moreover have "?xs ! k \<noteq> ?xs ! i" "?xs ! k \<noteq> ?xs ! j" using d k i j 3 by auto
      ultimately show ?thesis using q''(3) po k unfolding positions_ok_def by simp
    qed
  qed
  then show ?thesis unfolding positions_ok_def eq [symmetric] using q''(2) by simp
qed

section \<open>The sifting loops\<close>

lemma up_result:
  assumes "well_formed q" and "j < length (items q)"
  shows "\<exists>q'. up q j = Some q' \<and> rearranged q q'
           \<and> (\<forall>k. j < k \<longrightarrow> items q' ! k = items q ! k)
           \<and> (positions_ok q \<longrightarrow> positions_ok q')
           \<and> (\<forall>n. ordering_ok q \<and> j < n \<and> n \<le> length (items q)
                    \<and> heap_but_up (outranks (comparator q) (isMaxHeap q)) (entries q) n j
                 \<longrightarrow> heap_upto (outranks (comparator q) (isMaxHeap q)) (entries q') n)"
  using assms
proof (induction q j rule: up.induct)
  case (1 q j)
  let ?i = "(j - 1) div 2"
  let ?R = "outranks (comparator q) (isMaxHeap q)"
  note w = "1.prems"(1) and jl = "1.prems"(2)
  have pj: "parent j = ?i" by (simp add: parent_def)
  show ?case
  proof (cases "?i = j")
    case True
    then have j0: "j = 0" by arith
    have u: "up q j = Some q" unfolding j0 by (simp add: up.simps [of q 0])
    have pjj: "parent j = j" using j0 by (simp add: parent_def)
    have "heap_upto ?R (entries q) n" if "heap_but_up ?R (entries q) n j" for n
      using up_stop [OF that disjI1 [OF pjj]] .
    then show ?thesis using u rearranged_refl [of q] by simp
  next
    case False
    then have ij: "?i < j" by arith
    have il: "?i < length (items q)" using ij jl by simp
    have L: "Less q j ?i = Some (?R (entries q ! j) (entries q ! ?i))"
      using Less_outranks [OF w jl il] .
    show ?thesis
    proof (cases "?R (entries q ! j) (entries q ! ?i)")
      case nout: False
      have u: "up q j = Some q" using False L nout by (simp add: up.simps [of q j])
      have nout': "\<not> ?R (entries q ! j) (entries q ! parent j)" using nout pj by simp
      have "heap_upto ?R (entries q) n" if "heap_but_up ?R (entries q) n j" for n
        using up_stop [OF that disjI2 [OF nout']] .
      then show ?thesis using u rearranged_refl [of q] by simp
    next
      case out: True
      obtain q1 where sw: "Swap q ?i j = Some q1" and r1: "rearranged q q1"
        and it1: "items q1 = (items q)[?i := items q ! j, j := items q ! ?i]"
        using Swap_result [OF w il jl] by blast
      have w1: "well_formed q1" using rearranged_well_formed [OF r1 w] .
      have l1: "length (items q1) = length (items q)" using it1 by simp
      have il1: "?i < length (items q1)" using il l1 by simp
      have L': "Less q j ?i = Some True" using L out by simp
      have IH: "\<exists>q'. up q1 ?i = Some q' \<and> rearranged q1 q'
           \<and> (\<forall>k. ?i < k \<longrightarrow> items q' ! k = items q1 ! k)
           \<and> (positions_ok q1 \<longrightarrow> positions_ok q')
           \<and> (\<forall>n. ordering_ok q1 \<and> ?i < n \<and> n \<le> length (items q1)
                    \<and> heap_but_up (outranks (comparator q1) (isMaxHeap q1)) (entries q1) n ?i
                 \<longrightarrow> heap_upto (outranks (comparator q1) (isMaxHeap q1)) (entries q') n)"
        using "1.IH" [OF refl False L' _ sw w1 il1] by simp
      then obtain q' where u1: "up q1 ?i = Some q'" and r2: "rearranged q1 q'"
        and k2: "\<forall>k. ?i < k \<longrightarrow> items q' ! k = items q1 ! k"
        and p2: "positions_ok q1 \<longrightarrow> positions_ok q'"
        and h2: "\<forall>n. ordering_ok q1 \<and> ?i < n \<and> n \<le> length (items q1)
                    \<and> heap_but_up (outranks (comparator q1) (isMaxHeap q1)) (entries q1) n ?i
                 \<longrightarrow> heap_upto (outranks (comparator q1) (isMaxHeap q1)) (entries q') n"
        by blast
      have u: "up q j = Some q'" using False L' sw u1 by (simp add: up.simps [of q j])
      have r: "rearranged q q'" using rearranged_trans [OF r1 r2] .
      have k: "\<forall>k. j < k \<longrightarrow> items q' ! k = items q ! k"
        using k2 it1 ij by simp
      have p: "positions_ok q \<longrightarrow> positions_ok q'"
        using p2 Swap_positions [OF w _ il jl sw] by blast
      have R1: "outranks (comparator q1) (isMaxHeap q1) = ?R"
        using r1 unfolding rearranged_def by simp
      have e1: "entries q1 = (entries q)[?i := entries q ! j, j := entries q ! ?i]"
        using Swap_entries [OF r1 it1 il jl] .
      have h: "heap_upto ?R (entries q') n"
        if n: "ordering_ok q" "j < n" "n \<le> length (items q)" "heap_but_up ?R (entries q) n j" for n
      proof -
        have sw': "strict_weak ?R" using n(1) unfolding ordering_ok_def .
        have j0: "0 < j" using ij by simp
        have "heap_but_up ?R (entries q1) n (parent j)"
          unfolding e1 pj [symmetric]
          using up_step [OF sw' n(4) j0 n(2)] n(3) out pj by (simp add: length_entries)
        then show ?thesis
          using h2 rearranged_ordering [OF r1] n(1,2,3) ij l1 R1 pj by simp
      qed
      show ?thesis using u r k p h by blast
    qed
  qed
qed

lemma down_result:
  assumes "well_formed q" and "n \<le> length (items q)"
  shows "\<exists>i' q'. down_loop q i n = Some (i', q') \<and> rearranged q q' \<and> i \<le> i'
           \<and> (i' = i \<longrightarrow> q' = q)
           \<and> (\<forall>k. k < i \<or> n \<le> k \<longrightarrow> items q' ! k = items q ! k)
           \<and> (positions_ok q \<longrightarrow> positions_ok q')
           \<and> (ordering_ok q
                 \<and> heap_but_down (outranks (comparator q) (isMaxHeap q)) (entries q) n i
                 \<longrightarrow> heap_upto (outranks (comparator q) (isMaxHeap q)) (entries q') n)
           \<and> ((\<forall>c. 0 < c \<and> c < n \<and> parent c = i
                    \<longrightarrow> \<not> outranks (comparator q) (isMaxHeap q) (entries q ! c) (entries q ! i))
                 \<longrightarrow> i' = i)"
  using assms
proof (induction q i n rule: down_loop.induct)
  case (1 q i n)
  let ?j1 = "2 * i + 1"
  let ?R = "outranks (comparator q) (isMaxHeap q)"
  note w = "1.prems"(1) and nl = "1.prems"(2)
  show ?case
  proof (cases "n \<le> ?j1")
    case True
    have d: "down_loop q i n = Some (i, q)" using True by (simp add: down_loop.simps [of q i n])
    have nc: "\<not> (0 < c \<and> c < n \<and> parent c = i)" for c
      using True parent_eq_iff [of c i] by auto
    have "heap_upto ?R (entries q) n" if "heap_but_down ?R (entries q) n i"
      using down_stop [OF that] nc by blast
    then show ?thesis using d rearranged_refl [of q] by simp
  next
    case False
    define r where "r = (if ?j1 + 1 < n then ?R (entries q ! (?j1 + 1)) (entries q ! ?j1) else False)"
    define j where "j = (if r then ?j1 + 1 else ?j1)"
    have j1n: "?j1 < n" using False by simp
    have j1l: "?j1 < length (items q)" using j1n nl by simp
    have Lr: "(if ?j1 + 1 < n then Less q (?j1 + 1) ?j1 else Some False) = Some r"
      unfolding r_def using Less_outranks [OF w _ j1l, of "?j1 + 1"] nl by auto
    have jn: "j < n" unfolding j_def r_def using j1n by (auto split: if_splits)
    have jl: "j < length (items q)" using jn nl by simp
    have pj: "parent j = i" unfolding j_def using parent_child1 [of i] parent_child2 [of i] by simp
    have ij: "i < j" unfolding j_def by simp
    have j0: "0 < j" using ij by simp
    have il: "i < length (items q)" using ij jl by simp
    have jcases: "\<And>c. 0 < c \<Longrightarrow> parent c = i \<Longrightarrow> c = ?j1 \<or> c = ?j1 + 1"
      using parent_eq_iff by simp
    have L: "Less q j i = Some (?R (entries q ! j) (entries q ! i))"
      using Less_outranks [OF w jl il] .
    have best: "\<not> ?R (entries q ! c) (entries q ! j)"
      if c: "0 < c" "c < n" "parent c = i" and ok: "ordering_ok q" for c
    proof -
      have sw: "strict_weak ?R" using ok unfolding ordering_ok_def .
      have irr: "\<not> ?R (entries q ! j) (entries q ! j)" using sw strict_weak_asym by metis
      show ?thesis
      proof (cases "c = j")
        case True
        then show ?thesis using irr by simp
      next
        case cj: False
        show ?thesis
        proof (cases r)
          case True
          then have "j = ?j1 + 1" "?R (entries q ! (?j1 + 1)) (entries q ! ?j1)"
            unfolding j_def r_def by (auto split: if_splits)
          moreover have "c = ?j1" using jcases [OF c(1,3)] cj calculation(1) by simp
          ultimately show ?thesis using sw strict_weak_asym by metis
        next
          case False
          then have jj: "j = ?j1" unfolding j_def by simp
          then have "c = ?j1 + 1" using jcases [OF c(1,3)] cj by simp
          then show ?thesis using False c(2) jj unfolding r_def by (auto split: if_splits)
        qed
      qed
    qed
    show ?thesis
    proof (cases "?R (entries q ! j) (entries q ! i)")
      case nout: False
      have Lf: "Less q j i = Some False" using L nout by simp
      have d: "down_loop q i n = Some (i, q)"
        by (subst down_loop.simps)
           (simp only: Let_def False if_False Lr option.case j_def [symmetric] Lf
              not_False_eq_True if_True)
      have "heap_upto ?R (entries q) n"
        if ok: "ordering_ok q" and hb: "heap_but_down ?R (entries q) n i"
      proof -
        have sw: "strict_weak ?R" using ok unfolding ordering_ok_def .
        have "\<forall>c. 0 < c \<and> c < n \<and> parent c = i \<longrightarrow> \<not> ?R (entries q ! c) (entries q ! i)"
          using best ok nout sw strict_weak_trans by metis
        then show ?thesis using down_stop [OF hb] by blast
      qed
      then show ?thesis using d rearranged_refl [of q] by simp
    next
      case out: True
      obtain q1 where sw: "Swap q i j = Some q1" and r1: "rearranged q q1"
        and it1: "items q1 = (items q)[i := items q ! j, j := items q ! i]"
        using Swap_result [OF w il jl] by blast
      have w1: "well_formed q1" using rearranged_well_formed [OF r1 w] .
      have l1: "length (items q1) = length (items q)" using it1 by simp
      have nl1: "n \<le> length (items q1)" using nl l1 by simp
      have L': "Less q j i = Some True" using L out by simp
      have notle: "\<not> n \<le> ?j1" using False .
      have IH: "\<exists>i' q'. down_loop q1 j n = Some (i', q') \<and> rearranged q1 q' \<and> j \<le> i'
           \<and> (i' = j \<longrightarrow> q' = q1)
           \<and> (\<forall>k. k < j \<or> n \<le> k \<longrightarrow> items q' ! k = items q1 ! k)
           \<and> (positions_ok q1 \<longrightarrow> positions_ok q')
           \<and> (ordering_ok q1
                 \<and> heap_but_down (outranks (comparator q1) (isMaxHeap q1)) (entries q1) n j
                 \<longrightarrow> heap_upto (outranks (comparator q1) (isMaxHeap q1)) (entries q') n)
           \<and> ((\<forall>c. 0 < c \<and> c < n \<and> parent c = j
                    \<longrightarrow> \<not> outranks (comparator q1) (isMaxHeap q1) (entries q1 ! c) (entries q1 ! j))
                 \<longrightarrow> i' = j)"
        using "1.IH" [OF refl notle Lr j_def L' _ sw w1 nl1] by simp
      then obtain i' q' where d1: "down_loop q1 j n = Some (i', q')" and r2: "rearranged q1 q'"
        and ji': "j \<le> i'"
        and k2: "\<forall>k. k < j \<or> n \<le> k \<longrightarrow> items q' ! k = items q1 ! k"
        and p2: "positions_ok q1 \<longrightarrow> positions_ok q'"
        and h2: "ordering_ok q1
                 \<and> heap_but_down (outranks (comparator q1) (isMaxHeap q1)) (entries q1) n j
                 \<longrightarrow> heap_upto (outranks (comparator q1) (isMaxHeap q1)) (entries q') n"
        by blast
      have d: "down_loop q i n = Some (i', q')"
        by (subst down_loop.simps)
           (simp only: Let_def False if_False Lr option.case j_def [symmetric] L' sw d1
              not_True_eq_False if_False)
      have r: "rearranged q q'" using rearranged_trans [OF r1 r2] .
      have ii': "i \<le> i'" "i' \<noteq> i" using ij ji' by auto
      have k: "\<forall>k. k < i \<or> n \<le> k \<longrightarrow> items q' ! k = items q ! k"
        using k2 it1 ij jn by auto
      have p: "positions_ok q \<longrightarrow> positions_ok q'"
        using p2 Swap_positions [OF w _ il jl sw] by blast
      have R1: "outranks (comparator q1) (isMaxHeap q1) = ?R"
        using r1 unfolding rearranged_def by simp
      have e1: "entries q1 = (entries q)[i := entries q ! j, j := entries q ! i]"
        using Swap_entries [OF r1 it1 il jl] .
      have h: "heap_upto ?R (entries q') n"
        if ok: "ordering_ok q" and hb: "heap_but_down ?R (entries q) n i"
      proof -
        have sw': "strict_weak ?R" using ok unfolding ordering_ok_def .
        have nle: "n \<le> length (entries q)" using nl by (simp add: length_entries)
        have b: "\<forall>c. 0 < c \<and> c < n \<and> parent c = i \<longrightarrow> \<not> ?R (entries q ! c) (entries q ! j)"
          using best ok by blast
        have "heap_but_down ?R (entries q1) n j"
          unfolding e1 using down_step [OF sw' hb pj j0 jn nle b out] .
        then show ?thesis
          using h2 rearranged_ordering [OF r1] ok R1 by simp
      qed
      have noop: "\<not> (\<forall>c. 0 < c \<and> c < n \<and> parent c = i \<longrightarrow> \<not> ?R (entries q ! c) (entries q ! i))"
        using out j0 jn pj by blast
      show ?thesis using d r ii' k p h noop by blast
    qed
  qed
qed

section \<open>The container/heap functions on a well-formed queue\<close>

lemma well_formed_distinct: "well_formed q \<Longrightarrow> distinct (items q)"
  unfolding well_formed_def by (elim conjE)

lemma well_formed_subset: "well_formed q \<Longrightarrow> set (items q) \<subseteq> dom (objs q)"
  unfolding well_formed_def by (elim conjE)

lemma well_formed_dom: "well_formed q \<Longrightarrow> dom (objs q) = {p. p < nxt q}"
  unfolding well_formed_def by (elim conjE)

lemma well_formedI:
  "distinct (items q) \<Longrightarrow> set (items q) \<subseteq> dom (objs q) \<Longrightarrow> dom (objs q) = {p. p < nxt q}
     \<Longrightarrow> well_formed q"
  unfolding well_formed_def by (intro conjI)

lemma heap_invariant_iff:
  assumes w: "well_formed q"
  shows "heap_invariant q
     \<longleftrightarrow> heap_upto (outranks (comparator q) (isMaxHeap q)) (entries q) (length (items q))"
proof
  let ?R = "outranks (comparator q) (isMaxHeap q)"
  assume h: "heap_invariant q"
  show "heap_upto ?R (entries q) (length (items q))"
    unfolding heap_upto_def
  proof (intro allI impI)
    fix c assume c: "0 < c \<and> c < length (items q)"
    let ?i = "parent c"
    have pc: "?i < c" using c by (simp add: parent_less)
    then have il: "?i < length (items q)" using c by simp
    have cc: "c = 2 * ?i + 1 \<or> c = 2 * ?i + 2" using parent_eq_iff [of c ?i] c by simp
    have "Less q c ?i = Some False"
      using h il c cc unfolding heap_invariant_def by metis
    then show "\<not> ?R (entries q ! c) (entries q ! ?i)"
      using Less_outranks [OF w _ il, of c] c by simp
  qed
next
  let ?R = "outranks (comparator q) (isMaxHeap q)"
  assume h: "heap_upto ?R (entries q) (length (items q))"
  have "Less q c i = Some False" if "i < length (items q)" "c < length (items q)" "0 < c" "parent c = i" for c i
    using Less_outranks [OF w that(2,1)] h that unfolding heap_upto_def by auto
  then show "heap_invariant q"
    unfolding heap_invariant_def using parent_child1 parent_child2 by simp
qed

lemma rearranged_mset_entries: "rearranged q q' \<Longrightarrow> mset (entries q') = mset (entries q)"
proof -
  assume r: "rearranged q q'"
  have "entries q' = map (\<lambda>p. entry (the (objs q p))) (items q')"
    unfolding entries_def using rearranged_entry [OF r] by simp
  then have "mset (entries q') = image_mset (\<lambda>p. entry (the (objs q p))) (mset (items q'))"
    by simp
  also have "\<dots> = mset (entries q)" using r unfolding rearranged_def entries_def by simp
  finally show ?thesis .
qed

lemma Pop_result:
  assumes w: "well_formed q" and n: "length (items q) = Suc n"
  shows "\<exists>q' it. Pop q = Some (items q ! n, q') \<and> objs q (items q ! n) = Some it
           \<and> items q' = take n (items q)
           \<and> objs q' = (objs q)(items q ! n \<mapsto> it\<lparr>Index := - 1\<rparr>)
           \<and> comparator q' = comparator q \<and> isMaxHeap q' = isMaxHeap q \<and> nxt q' = nxt q
           \<and> well_formed q' \<and> (positions_ok q \<longrightarrow> positions_ok q')
           \<and> entries q' = take n (entries q)"
proof -
  let ?x = "items q ! n"
  have nl: "n < length (items q)" using n by simp
  obtain it where it: "objs q ?x = Some it" using item_at_Some [OF w nl] by blast
  define q' where "q' = q\<lparr>objs := (objs q)(?x \<mapsto> it\<lparr>Index := - 1\<rparr>), items := take n (items q)\<rparr>"
  have a: "length (items q) \<noteq> 0" "length (items q) - 1 = n" using n by simp_all
  have P: "Pop q = Some (?x, q')"
    unfolding Pop_def Let_def set_Index_def q'_def a(2)
    using a(1) it by simp
  have d: "distinct (items q)" using w by (rule well_formed_distinct)
  have split: "items q = take n (items q) @ [?x]"
    using nl n by (simp add: take_Suc_conv_app_nth [symmetric])
  have "distinct (take n (items q) @ [?x])" using d split by metis
  then have notin: "?x \<notin> set (take n (items q))" by simp
  have dm: "dom (objs q') = dom (objs q)" unfolding q'_def using it by auto
  have it': "items q' = take n (items q)" "nxt q' = nxt q" unfolding q'_def by simp_all
  have s1: "set (items q') \<subseteq> set (items q)" unfolding it' by (rule set_take_subset)
  have s2: "set (items q) \<subseteq> dom (objs q)" using w by (rule well_formed_subset)
  have s3: "set (items q') \<subseteq> dom (objs q')" unfolding dm using s1 s2 by (rule subset_trans)
  have s4: "distinct (items q')" unfolding it' using d by simp
  have s5: "dom (objs q) = {p. p < nxt q}" using w by (rule well_formed_dom)
  have s6: "dom (objs q') = {p. p < nxt q'}" unfolding dm it' using s5 .
  have w': "well_formed q'" using s4 s3 s6 by (rule well_formedI)
  have flds: "objs q' = (objs q)(?x \<mapsto> it\<lparr>Index := - 1\<rparr>)" "comparator q' = comparator q"
    "isMaxHeap q' = isMaxHeap q"
    unfolding q'_def by simp_all
  have other: "objs q' p = objs q p" if "p \<in> set (take n (items q))" for p
    using that notin unfolding flds(1) by auto
  have po: "positions_ok q'" if "positions_ok q"
    unfolding positions_ok_def
  proof (intro allI impI)
    fix i assume i: "i < length (items q')"
    then have il: "i < n" unfolding it' using nl by simp
    have "items q' ! i \<in> set (items q')" using i by (rule nth_mem)
    then have m: "items q' ! i \<in> set (take n (items q))" using it'(1) by simp
    have e: "items q' ! i = items q ! i" using il unfolding it' by simp
    have "map_option Index (objs q (items q ! i)) = Some (int i)"
      using that il nl unfolding positions_ok_def by simp
    then show "map_option Index (objs q' (items q' ! i)) = Some (int i)"
      using other [OF m] e by simp
  qed
  have "map (\<lambda>p. entry (the (objs q' p))) (take n (items q))
        = map (\<lambda>p. entry (the (objs q p))) (take n (items q))"
    using other by (intro map_cong) auto
  then have en: "entries q' = take n (entries q)"
    unfolding entries_def it' by (simp add: take_map)
  show ?thesis
    using P it it' flds w' po en by blast
qed

lemma Push_result:
  assumes w: "well_formed q" and x: "objs q x = Some it" and nx: "x \<notin> set (items q)"
  shows "\<exists>q'. Push q x = Some q' \<and> items q' = items q @ [x]
           \<and> objs q' = (objs q)(x \<mapsto> it\<lparr>Index := int (length (items q))\<rparr>)
           \<and> comparator q' = comparator q \<and> isMaxHeap q' = isMaxHeap q \<and> nxt q' = nxt q
           \<and> well_formed q' \<and> (positions_ok q \<longrightarrow> positions_ok q')
           \<and> entries q' = entries q @ [entry it]"
proof -
  define q' where "q' = q\<lparr>objs := (objs q)(x \<mapsto> it\<lparr>Index := int (length (items q))\<rparr>),
                           items := items q @ [x]\<rparr>"
  have P: "Push q x = Some q'"
    using x unfolding Push_def q'_def by (simp add: Let_def set_Index_def)
  have dm: "dom (objs q') = dom (objs q)" unfolding q'_def using x by auto
  have it': "items q' = items q @ [x]" "nxt q' = nxt q" unfolding q'_def by simp_all
  have "x \<in> dom (objs q)" using x by blast
  then have s3: "set (items q') \<subseteq> dom (objs q')"
    unfolding dm it' using well_formed_subset [OF w] by simp
  have s4: "distinct (items q')" unfolding it' using well_formed_distinct [OF w] nx by simp
  have s6: "dom (objs q') = {p. p < nxt q'}" unfolding dm it' using w by (rule well_formed_dom)
  have w': "well_formed q'" using s4 s3 s6 by (rule well_formedI)
  have po: "positions_ok q'" if "positions_ok q"
    unfolding positions_ok_def
  proof (intro allI impI)
    fix i assume i: "i < length (items q')"
    show "map_option Index (objs q' (items q' ! i)) = Some (int i)"
    proof (cases "i < length (items q)")
      case True
      then have "items q ! i \<noteq> x" using nx by (metis nth_mem)
      then show ?thesis using that True unfolding positions_ok_def q'_def by (simp add: nth_append)
    next
      case False
      then have "i = length (items q)" using i unfolding q'_def by simp
      then show ?thesis unfolding q'_def by simp
    qed
  qed
  have "map (\<lambda>p. entry (the (objs q' p))) (items q) = map (\<lambda>p. entry (the (objs q p))) (items q)"
    using nx unfolding q'_def by (intro map_cong) auto
  then have en: "entries q' = entries q @ [entry it]"
    unfolding entries_def by (simp add: q'_def entry_def)
  have flds: "objs q' = (objs q)(x \<mapsto> it\<lparr>Index := int (length (items q))\<rparr>)"
    "comparator q' = comparator q" "isMaxHeap q' = isMaxHeap q"
    unfolding q'_def by simp_all
  show ?thesis
    using P it' flds w' po en by blast
qed

text \<open>The repair that \<^verbatim>\<open>heap.Fix\<close> and \<^verbatim>\<open>heap.Remove\<close> share: \<open>down\<close> over the first \<open>n\<close>
  indices, then \<open>up\<close> if the element did not move.\<close>

lemma repair_result:
  assumes w: "well_formed q" and i: "i < n" and n: "n \<le> length (items q)"
  shows "\<exists>moved q2 q3. down q i n = Some (moved, q2)
           \<and> (if \<not> moved then up q2 i else Some q2) = Some q3
           \<and> rearranged q q3
           \<and> (\<forall>k. n \<le> k \<longrightarrow> items q3 ! k = items q ! k)
           \<and> (positions_ok q \<longrightarrow> positions_ok q3)
           \<and> (ordering_ok q \<and>
                ((heap_but_down (outranks (comparator q) (isMaxHeap q)) (entries q) n i
                    \<and> (0 < i \<longrightarrow> \<not> outranks (comparator q) (isMaxHeap q)
                                       (entries q ! i) (entries q ! parent i)))
                 \<or> (heap_but_up (outranks (comparator q) (isMaxHeap q)) (entries q) n i
                    \<and> (\<forall>c. 0 < c \<and> c < n \<and> parent c = i
                          \<longrightarrow> \<not> outranks (comparator q) (isMaxHeap q)
                                 (entries q ! c) (entries q ! i))))
              \<longrightarrow> heap_upto (outranks (comparator q) (isMaxHeap q)) (entries q3) n)"
proof -
  let ?R = "outranks (comparator q) (isMaxHeap q)"
  obtain i' q2 where d: "down_loop q i n = Some (i', q2)" and r2: "rearranged q q2"
    and ii: "i \<le> i'" and same: "i' = i \<longrightarrow> q2 = q"
    and k2: "\<forall>k. k < i \<or> n \<le> k \<longrightarrow> items q2 ! k = items q ! k"
    and p2: "positions_ok q \<longrightarrow> positions_ok q2"
    and h2: "ordering_ok q \<and> heap_but_down ?R (entries q) n i \<longrightarrow> heap_upto ?R (entries q2) n"
    and noop: "(\<forall>c. 0 < c \<and> c < n \<and> parent c = i \<longrightarrow> \<not> ?R (entries q ! c) (entries q ! i))
                 \<longrightarrow> i' = i"
    using down_result [OF w n, of i] by blast
  have dn: "down q i n = Some (i < i', q2)" using d by (simp add: down_def)
  show ?thesis
  proof (cases "i < i'")
    case True
    have "heap_upto ?R (entries q2) n"
      if "ordering_ok q" "heap_but_down ?R (entries q) n i"
      using h2 that by simp
    moreover have "\<not> (\<forall>c. 0 < c \<and> c < n \<and> parent c = i \<longrightarrow> \<not> ?R (entries q ! c) (entries q ! i))"
      using noop True by auto
    ultimately have hp: "ordering_ok q \<and>
                ((heap_but_down ?R (entries q) n i
                    \<and> (0 < i \<longrightarrow> \<not> ?R (entries q ! i) (entries q ! parent i)))
                 \<or> (heap_but_up ?R (entries q) n i
                    \<and> (\<forall>c. 0 < c \<and> c < n \<and> parent c = i
                          \<longrightarrow> \<not> ?R (entries q ! c) (entries q ! i))))
              \<longrightarrow> heap_upto ?R (entries q2) n"
      by blast
    have dn': "down q i n = Some (True, q2)" using dn True by simp
    have st: "(if \<not> True then up q2 i else Some q2) = Some q2" by simp
    have k: "\<forall>k. n \<le> k \<longrightarrow> items q2 ! k = items q ! k" using k2 by simp
    show ?thesis using dn' st r2 k p2 hp by blast
  next
    case False
    then have q2: "q2 = q" using same ii by simp
    have il: "i < length (items q)" using i n by simp
    obtain q3 where u: "up q i = Some q3" and r3: "rearranged q q3"
      and k3: "\<forall>k. i < k \<longrightarrow> items q3 ! k = items q ! k"
      and p3: "positions_ok q \<longrightarrow> positions_ok q3"
      and h3: "\<forall>m. ordering_ok q \<and> i < m \<and> m \<le> length (items q) \<and> heap_but_up ?R (entries q) m i
                 \<longrightarrow> heap_upto ?R (entries q3) m"
      using up_result [OF w il] by blast
    have hp: "heap_upto ?R (entries q3) n"
      if ok: "ordering_ok q"
        and c: "(heap_but_down ?R (entries q) n i
                    \<and> (0 < i \<longrightarrow> \<not> ?R (entries q ! i) (entries q ! parent i)))
                 \<or> (heap_but_up ?R (entries q) n i
                    \<and> (\<forall>c. 0 < c \<and> c < n \<and> parent c = i
                          \<longrightarrow> \<not> ?R (entries q ! c) (entries q ! i)))"
    proof -
      have sw: "strict_weak ?R" using ok unfolding ordering_ok_def .
      have "heap_but_up ?R (entries q) n i"
      proof (rule disjE [OF c])
        assume a: "heap_but_down ?R (entries q) n i
                    \<and> (0 < i \<longrightarrow> \<not> ?R (entries q ! i) (entries q ! parent i))"
        then have "heap_upto ?R (entries q) n" using h2 ok q2 by simp
        then show ?thesis using heap_imp_but_up [OF sw _ i] by simp
      next
        assume "heap_but_up ?R (entries q) n i
                    \<and> (\<forall>c. 0 < c \<and> c < n \<and> parent c = i
                          \<longrightarrow> \<not> ?R (entries q ! c) (entries q ! i))"
        then show ?thesis by simp
      qed
      then show ?thesis using h3 ok i n by simp
    qed
    have k: "\<forall>k. n \<le> k \<longrightarrow> items q3 ! k = items q ! k" using k3 i by simp
    have dn': "down q i n = Some (False, q)" using dn False q2 by simp
    have st: "(if \<not> False then up q i else Some q) = Some q3" using u by simp
    have hp': "ordering_ok q \<and>
                ((heap_but_down ?R (entries q) n i
                    \<and> (0 < i \<longrightarrow> \<not> ?R (entries q ! i) (entries q ! parent i)))
                 \<or> (heap_but_up ?R (entries q) n i
                    \<and> (\<forall>c. 0 < c \<and> c < n \<and> parent c = i
                          \<longrightarrow> \<not> ?R (entries q ! c) (entries q ! i))))
              \<longrightarrow> heap_upto ?R (entries q3) n"
      using hp by blast
    show ?thesis using dn' st r3 k p3 hp' by blast
  qed
qed

lemma heap_but_down_root:
  assumes "heap_upto R ks n" and "\<forall>k<n. k \<noteq> 0 \<longrightarrow> ks' ! k = ks ! k"
  shows "heap_but_down R ks' n 0"
  unfolding heap_but_down_def
proof (intro conjI allI impI)
  fix c assume c: "0 < c \<and> c < n \<and> parent c \<noteq> 0"
  then have "parent c < n" using parent_less [of c] by simp
  then have "ks' ! c = ks ! c" "ks' ! parent c = ks ! parent c" using assms(2) c by auto
  then show "\<not> R (ks' ! c) (ks' ! parent c)" using assms(1) c unfolding heap_upto_def by simp
next
  fix c assume "0 < c \<and> c < n \<and> parent c = 0 \<and> (0::nat) < 0"
  then show "\<not> R (ks' ! c) (ks' ! parent 0)" by simp
qed

lemma split_last: "length xs = Suc n \<Longrightarrow> xs = take n xs @ [xs ! n]"
proof -
  assume l: "length xs = Suc n"
  then have "n < length xs" by simp
  then have "take (Suc n) xs = take n xs @ [xs ! n]" by (rule take_Suc_conv_app_nth)
  then show ?thesis using l by simp
qed

lemma heap_upto_take: "n \<le> length ks \<Longrightarrow> heap_upto R (take n ks) n = heap_upto R ks n"
  by (rule heap_upto_cong) simp

text \<open>The last step of \<^verbatim>\<open>heap.Pop\<close> and \<^verbatim>\<open>heap.Remove\<close>: the element that was at index \<open>i\<close>
  has been moved to the end, the others were rearranged, and \<^verbatim>\<open>Pop\<close> cuts it off.\<close>

lemma Pop_after:
  assumes w: "well_formed q" and r: "rearranged q q3"
    and len: "length (items q) = Suc n" and i: "i \<le> n"
    and last: "items q3 ! n = items q ! i"
  shows "\<exists>q4 it it4. Pop q3 = Some (items q ! i, q4)
           \<and> objs q (items q ! i) = Some it \<and> objs q4 (items q ! i) = Some it4
           \<and> Value it4 = Value it \<and> Index it4 = - 1
           \<and> well_formed q4
           \<and> comparator q4 = comparator q \<and> isMaxHeap q4 = isMaxHeap q \<and> nxt q4 = nxt q
           \<and> items q4 = take n (items q3) \<and> entries q4 = take n (entries q3)
           \<and> (positions_ok q3 \<longrightarrow> positions_ok q4)
           \<and> mset (entries q) = add_mset (entries q ! i) (mset (entries q4))
           \<and> (\<forall>a. a \<notin> set (items q) \<longrightarrow> objs q4 a = objs q a)
           \<and> set (items q4) = set (items q) - {items q ! i}"
proof -
  let ?x = "items q ! i"
  have w3: "well_formed q3" using rearranged_well_formed [OF r w] .
  have len3: "length (items q3) = Suc n" using rearranged_length [OF r] len by simp
  obtain q4 it3 where P: "Pop q3 = Some (items q3 ! n, q4)" and it3: "objs q3 (items q3 ! n) = Some it3"
    and i4: "items q4 = take n (items q3)"
    and o4: "objs q4 = (objs q3)(items q3 ! n \<mapsto> it3\<lparr>Index := - 1\<rparr>)"
    and f4: "comparator q4 = comparator q3" "isMaxHeap q4 = isMaxHeap q3" "nxt q4 = nxt q3"
    and w4: "well_formed q4" and p4: "positions_ok q3 \<longrightarrow> positions_ok q4"
    and e4: "entries q4 = take n (entries q3)"
    using Pop_result [OF w3 len3] by blast
  have il: "i < length (items q)" using i len by simp
  obtain it where it: "objs q ?x = Some it" using item_at_Some [OF w il] by blast
  have ent: "map_option entry (objs q3 ?x) = map_option entry (objs q ?x)"
    using r unfolding rearranged_def by blast
  have v: "Value it3 = Value it" "entry it3 = entry it"
    using ent it it3 last by (auto simp: entry_def)
  have o4x: "objs q4 ?x = Some (it3\<lparr>Index := - 1\<rparr>)" unfolding o4 last by simp
  have f: "comparator q4 = comparator q" "isMaxHeap q4 = isMaxHeap q" "nxt q4 = nxt q"
    using f4 r unfolding rearranged_def by simp_all
  have sp: "entries q3 = take n (entries q3) @ [entries q3 ! n]"
    using len3 by (intro split_last) (simp add: length_entries)
  have "entries q3 ! n = entry it"
    using len3 it3 v(2) by (simp add: entries_nth)
  moreover have "entries q ! i = entry it" using il it by (simp add: entries_nth)
  ultimately have "mset (entries q3) = add_mset (entries q ! i) (mset (entries q4))"
    using sp e4 by (metis mset.simps(2) mset_append union_mset_add_mset_right add.right_neutral mset.simps(1))
  then have ms: "mset (entries q) = add_mset (entries q ! i) (mset (entries q4))"
    using rearranged_mset_entries [OF r] by simp
  have xin: "?x \<in> set (items q)" using il by simp
  have fr: "\<forall>a. a \<notin> set (items q) \<longrightarrow> objs q4 a = objs q a"
    using r xin last unfolding o4 rearranged_def by auto
  have sp3: "items q3 = take n (items q3) @ [?x]"
    using split_last [OF len3] last by simp
  have "distinct (take n (items q3) @ [?x])"
    using well_formed_distinct [OF w3] sp3 by metis
  then have "?x \<notin> set (take n (items q3))" by simp
  moreover have "set (items q3) = insert ?x (set (take n (items q3)))"
    by (subst sp3) simp
  ultimately have st: "set (items q4) = set (items q) - {?x}"
    using rearranged_set [OF r] i4 by auto
  have P': "Pop q3 = Some (?x, q4)" using P last by simp
  have vi: "Value (it3\<lparr>Index := - 1\<rparr>) = Value it" "Index (it3\<lparr>Index := - 1\<rparr>) = - 1"
    using v by simp_all
  show ?thesis
    using P' it o4x vi w4 f i4 e4 p4 ms fr st by blast
qed

section \<open>The public operations on a well-formed queue\<close>

lemma heap_Init_empty: "items q = [] \<Longrightarrow> heap_Init q = Some q"
  by (simp add: heap_Init_def Len_def)

lemma Clear_result: "Clear q = Some (q\<lparr>items := []\<rparr>)"
  by (simp add: Clear_def heap_Init_empty)

lemma well_formed_empty: "well_formed q \<Longrightarrow> well_formed (q\<lparr>items := []\<rparr>)"
  unfolding well_formed_def by simp

lemma positions_ok_empty: "positions_ok (q\<lparr>items := []\<rparr>)"
  unfolding positions_ok_def by simp

lemma heap_invariant_empty: "heap_invariant (q\<lparr>items := []\<rparr>)"
  unfolding heap_invariant_def by simp

lemma Enqueue_result:
  assumes w: "well_formed q"
  shows "\<exists>q'. Enqueue q v p = Some (nxt q, q') \<and> well_formed q'
           \<and> comparator q' = comparator q \<and> isMaxHeap q' = isMaxHeap q \<and> nxt q' = Suc (nxt q)
           \<and> length (items q') = Suc (length (items q))
           \<and> set (items q') = insert (nxt q) (set (items q))
           \<and> (positions_ok q \<longrightarrow> positions_ok q')
           \<and> (ordering_ok q \<and> heap_invariant q \<longrightarrow> heap_invariant q')
           \<and> mset (entries q') = add_mset (v, p) (mset (entries q))
           \<and> (\<forall>a. a \<notin> set (items q) \<and> a \<noteq> nxt q \<longrightarrow> objs q' a = objs q a)"
proof -
  let ?x = "nxt q"
  let ?it = "\<lparr>Value = v, Priority = p, Index = 0\<rparr>"
  let ?R = "outranks (comparator q) (isMaxHeap q)"
  let ?n = "length (items q)"
  define q1 where "q1 = q\<lparr>objs := (objs q)(?x \<mapsto> ?it), nxt := Suc ?x\<rparr>"
  have f1: "items q1 = items q" "comparator q1 = comparator q" "isMaxHeap q1 = isMaxHeap q"
    "nxt q1 = Suc ?x" "objs q1 = (objs q)(?x \<mapsto> ?it)"
    unfolding q1_def by simp_all
  have dq: "dom (objs q) = {a. a < ?x}" using w by (rule well_formed_dom)
  have sub: "set (items q) \<subseteq> dom (objs q)" using w by (rule well_formed_subset)
  have nx: "?x \<notin> set (items q)" using sub dq by auto
  have d1: "dom (objs q1) = {a. a < nxt q1}" unfolding f1 using dq by auto
  have s1: "set (items q1) \<subseteq> dom (objs q1)" unfolding f1 using sub by auto
  have dd1: "distinct (items q1)" unfolding f1(1) using w by (rule well_formed_distinct)
  have w1: "well_formed q1" using dd1 s1 d1 by (rule well_formedI)
  have same1: "objs q1 a = objs q a" if "a \<in> set (items q)" for a
    using that nx unfolding f1 by auto
  have po1: "positions_ok q1" if "positions_ok q"
    using that same1 unfolding positions_ok_def f1(1) by simp
  have "map (\<lambda>a. entry (the (objs q1 a))) (items q) = map (\<lambda>a. entry (the (objs q a))) (items q)"
    using same1 by (intro map_cong) auto
  then have e1: "entries q1 = entries q" unfolding entries_def f1(1) .
  have ox: "objs q1 ?x = Some ?it" unfolding f1 by simp
  have nx1: "?x \<notin> set (items q1)" unfolding f1 using nx .
  obtain q2 where P: "Push q1 ?x = Some q2" and i2: "items q2 = items q1 @ [?x]"
    and o2: "objs q2 = (objs q1)(?x \<mapsto> ?it\<lparr>Index := int (length (items q1))\<rparr>)"
    and f2: "comparator q2 = comparator q1" "isMaxHeap q2 = isMaxHeap q1" "nxt q2 = nxt q1"
    and w2: "well_formed q2" and p2: "positions_ok q1 \<longrightarrow> positions_ok q2"
    and e2: "entries q2 = entries q1 @ [entry ?it]"
    using Push_result [OF w1 ox nx1] by blast
  have l2: "length (items q2) = Suc ?n" unfolding i2 f1 by simp
  have nl2: "?n < length (items q2)" using l2 by simp
  obtain q' where u: "up q2 ?n = Some q'" and r: "rearranged q2 q'"
    and p3: "positions_ok q2 \<longrightarrow> positions_ok q'"
    and h3: "\<forall>m. ordering_ok q2 \<and> ?n < m \<and> m \<le> length (items q2)
                 \<and> heap_but_up (outranks (comparator q2) (isMaxHeap q2)) (entries q2) m ?n
               \<longrightarrow> heap_upto (outranks (comparator q2) (isMaxHeap q2)) (entries q') m"
    using up_result [OF w2 nl2] by blast
  have E: "Enqueue q v p = Some (?x, q')"
    using P u l2 unfolding Enqueue_def heap_Push_def Let_def q1_def [symmetric] Len_def by simp
  have w': "well_formed q'" using rearranged_well_formed [OF r w2] .
  have f': "comparator q' = comparator q" "isMaxHeap q' = isMaxHeap q" "nxt q' = Suc ?x"
    using r f2 f1 unfolding rearranged_def by simp_all
  have l': "length (items q') = Suc ?n" using rearranged_length [OF r] l2 by simp
  have st: "set (items q') = insert ?x (set (items q))"
    using rearranged_set [OF r] unfolding i2 f1 by simp
  have po: "positions_ok q \<longrightarrow> positions_ok q'" using po1 p2 p3 by blast
  have R2: "outranks (comparator q2) (isMaxHeap q2) = ?R" unfolding f2 f1 ..
  have hp: "heap_invariant q'" if ok: "ordering_ok q" and h: "heap_invariant q"
  proof -
    have "heap_upto ?R (entries q) ?n" using h heap_invariant_iff [OF w] by simp
    then have "heap_but_up ?R (entries q2) (Suc ?n) ?n"
      unfolding e2 e1 by (intro heap_but_up_append) (simp_all add: length_entries)
    moreover have "ordering_ok q2" using ok unfolding ordering_ok_def f2 f1 .
    ultimately have "heap_upto ?R (entries q') (Suc ?n)"
      using h3 l2 R2 by simp
    then show ?thesis using heap_invariant_iff [OF w'] f' l' by simp
  qed
  have "mset (entries q') = mset (entries q2)" using rearranged_mset_entries [OF r] .
  then have ms: "mset (entries q') = add_mset (v, p) (mset (entries q))"
    unfolding e2 e1 by (simp add: entry_def)
  have fr: "\<forall>a. a \<notin> set (items q) \<and> a \<noteq> ?x \<longrightarrow> objs q' a = objs q a"
  proof (intro allI impI)
    fix a assume a: "a \<notin> set (items q) \<and> a \<noteq> ?x"
    then have "a \<notin> set (items q2)" unfolding i2 f1 by simp
    then have "objs q' a = objs q2 a" using r unfolding rearranged_def by blast
    then show "objs q' a = objs q a" using a unfolding o2 f1 by simp
  qed
  show ?thesis using E w' f' l' st po hp ms fr by blast
qed

lemma Dequeue_result:
  assumes w: "well_formed q" and ne: "items q \<noteq> []"
  shows "\<exists>q' it it'. Dequeue q = Some (Found (Value it), q')
           \<and> objs q (items q ! 0) = Some it \<and> objs q' (items q ! 0) = Some it' \<and> Index it' = - 1
           \<and> well_formed q'
           \<and> comparator q' = comparator q \<and> isMaxHeap q' = isMaxHeap q \<and> nxt q' = nxt q
           \<and> Suc (length (items q')) = length (items q)
           \<and> set (items q') = set (items q) - {items q ! 0}
           \<and> (positions_ok q \<longrightarrow> positions_ok q')
           \<and> (ordering_ok q \<and> heap_invariant q \<longrightarrow> heap_invariant q')
           \<and> mset (entries q) = add_mset (entries q ! 0) (mset (entries q'))
           \<and> (\<forall>a. a \<notin> set (items q) \<longrightarrow> objs q' a = objs q a)"
proof -
  let ?R = "outranks (comparator q) (isMaxHeap q)"
  obtain n where len: "length (items q) = Suc n" using ne by (cases "items q") auto
  have l0: "0 < length (items q)" and nl: "n < length (items q)" using len by simp_all
  obtain q1 where sw: "Swap q 0 n = Some q1" and r1: "rearranged q q1"
    and i1: "items q1 = (items q)[0 := items q ! n, n := items q ! 0]"
    using Swap_result [OF w l0 nl] by blast
  have w1: "well_formed q1" using rearranged_well_formed [OF r1 w] .
  have l1: "length (items q1) = Suc n" using i1 len by simp
  have n1: "n \<le> length (items q1)" using l1 by simp
  obtain i' q2 where d: "down_loop q1 0 n = Some (i', q2)" and r2: "rearranged q1 q2"
    and k2: "\<forall>k. k < 0 \<or> n \<le> k \<longrightarrow> items q2 ! k = items q1 ! k"
    and p2: "positions_ok q1 \<longrightarrow> positions_ok q2"
    and h2: "ordering_ok q1 \<and> heap_but_down (outranks (comparator q1) (isMaxHeap q1)) (entries q1) n 0
               \<longrightarrow> heap_upto (outranks (comparator q1) (isMaxHeap q1)) (entries q2) n"
    using down_result [OF w1 n1, of 0] by blast
  have r: "rearranged q q2" using rearranged_trans [OF r1 r2] .
  have last: "items q2 ! n = items q ! 0" using k2 i1 nl by simp
  obtain q4 it it4 where P: "Pop q2 = Some (items q ! 0, q4)"
    and it: "objs q (items q ! 0) = Some it" "objs q4 (items q ! 0) = Some it4"
       "Value it4 = Value it" "Index it4 = - 1"
    and w4: "well_formed q4"
    and f4: "comparator q4 = comparator q" "isMaxHeap q4 = isMaxHeap q" "nxt q4 = nxt q"
    and i4: "items q4 = take n (items q2)" and e4: "entries q4 = take n (entries q2)"
    and p4: "positions_ok q2 \<longrightarrow> positions_ok q4"
    and ms: "mset (entries q) = add_mset (entries q ! 0) (mset (entries q4))"
    and fr: "\<forall>a. a \<notin> set (items q) \<longrightarrow> objs q4 a = objs q a"
    and st: "set (items q4) = set (items q) - {items q ! 0}"
    using Pop_after [OF w r len _ last] by blast
  have hP: "heap_Pop q = Some (items q ! 0, q4)"
    using len sw d P unfolding heap_Pop_def Len_def down_def by simp
  have D: "Dequeue q = Some (Found (Value it), q4)"
    using ne hP it unfolding Dequeue_def by simp
  have l2: "length (items q2) = Suc n" using rearranged_length [OF r2] l1 by simp
  have l4: "Suc (length (items q4)) = length (items q)" unfolding i4 using l2 len by simp
  have po: "positions_ok q \<longrightarrow> positions_ok q4"
    using Swap_positions [OF w _ l0 nl sw] p2 p4 by blast
  have R1: "outranks (comparator q1) (isMaxHeap q1) = ?R"
    using r1 unfolding rearranged_def by simp
  have hp: "heap_invariant q4" if ok: "ordering_ok q" and h: "heap_invariant q"
  proof -
    have "heap_upto ?R (entries q) (Suc n)" using h heap_invariant_iff [OF w] len by simp
    then have hn: "heap_upto ?R (entries q) n" by (rule heap_upto_mono) simp
    have e1: "entries q1 = (entries q)[0 := entries q ! n, n := entries q ! 0]"
      using Swap_entries [OF r1 i1 l0 nl] .
    have "\<forall>k<n. k \<noteq> 0 \<longrightarrow> entries q1 ! k = entries q ! k" unfolding e1 by simp
    then have "heap_but_down ?R (entries q1) n 0" using heap_but_down_root [OF hn] by blast
    moreover have "ordering_ok q1" using ok rearranged_ordering [OF r1] by simp
    ultimately have "heap_upto ?R (entries q2) n" using h2 R1 by simp
    moreover have "n \<le> length (entries q2)" using l2 by (simp add: length_entries)
    ultimately have "heap_upto ?R (entries q4) n" unfolding e4 using heap_upto_take by blast
    then show ?thesis using heap_invariant_iff [OF w4] f4 l4 len by simp
  qed
  show ?thesis using D it(1,2,4) w4 f4 l4 st po hp ms fr by blast
qed

lemma Peek_result:
  assumes w: "well_formed q" and ne: "items q \<noteq> []"
  shows "\<exists>it. objs q (items q ! 0) = Some it \<and> Peek q = Some (Found (Value it), q)"
proof -
  have l0: "0 < length (items q)" using ne by simp
  obtain it where "item_at q 0 = Some it" "objs q (items q ! 0) = Some it"
    using item_at_Some [OF w l0] by blast
  then show ?thesis using ne unfolding Peek_def by simp
qed

lemma Remove_result:
  assumes w: "well_formed q" and h: "objs q h = Some ith"
    and live: "0 \<le> Index ith" "Index ith < int (length (items q))"
  shows "\<exists>q' it it'. Remove q h = Some (Found (Value it), q')
           \<and> objs q (items q ! nat (Index ith)) = Some it
           \<and> objs q' (items q ! nat (Index ith)) = Some it' \<and> Index it' = - 1
           \<and> well_formed q'
           \<and> comparator q' = comparator q \<and> isMaxHeap q' = isMaxHeap q \<and> nxt q' = nxt q
           \<and> Suc (length (items q')) = length (items q)
           \<and> set (items q') = set (items q) - {items q ! nat (Index ith)}
           \<and> (positions_ok q \<longrightarrow> positions_ok q')
           \<and> (ordering_ok q \<and> heap_invariant q \<longrightarrow> heap_invariant q')
           \<and> mset (entries q) = add_mset (entries q ! nat (Index ith)) (mset (entries q'))
           \<and> (\<forall>a. a \<notin> set (items q) \<longrightarrow> objs q' a = objs q a)"
proof -
  let ?R = "outranks (comparator q) (isMaxHeap q)"
  define i where "i = nat (Index ith)"
  have il: "i < length (items q)" unfolding i_def using live by simp
  obtain n where len: "length (items q) = Suc n" using il by (cases "items q") auto
  have nl: "n < length (items q)" and i_le: "i \<le> n" using len il by simp_all
  have ne: "Len q \<noteq> 0" "Len q - 1 = n" unfolding Len_def using len by simp_all
  have guard: "\<not> (Index ith < 0 \<or> int (length (items q)) \<le> Index ith)" using live by simp
  have "\<exists>q3. (if n \<noteq> i then
                 do { q1 \<leftarrow> Swap q i n;
                      (moved, q2) \<leftarrow> down q1 i n;
                      if \<not> moved then up q2 i else Some q2 }
               else Some q) = Some q3
          \<and> rearranged q q3 \<and> items q3 ! n = items q ! i
          \<and> (positions_ok q \<longrightarrow> positions_ok q3)
          \<and> (ordering_ok q \<and> heap_invariant q \<longrightarrow> heap_upto ?R (entries q3) n)"
  proof (cases "n = i")
    case True
    have "heap_upto ?R (entries q) n" if "heap_invariant q"
    proof -
      have "heap_upto ?R (entries q) (Suc n)" using that heap_invariant_iff [OF w] len by simp
      then show ?thesis by (rule heap_upto_mono) simp
    qed
    then show ?thesis using True rearranged_refl [of q] by auto
  next
    case False
    then have i_n: "i < n" using i_le by simp
    obtain q1 where sw: "Swap q i n = Some q1" and r1: "rearranged q q1"
      and i1: "items q1 = (items q)[i := items q ! n, n := items q ! i]"
      using Swap_result [OF w il nl] by blast
    have w1: "well_formed q1" using rearranged_well_formed [OF r1 w] .
    have l1: "length (items q1) = Suc n" using i1 len by simp
    have n1: "n \<le> length (items q1)" using l1 by simp
    let ?R1 = "outranks (comparator q1) (isMaxHeap q1)"
    obtain moved q2 q3 where d: "down q1 i n = Some (moved, q2)"
      and u: "(if \<not> moved then up q2 i else Some q2) = Some q3"
      and r3: "rearranged q1 q3"
      and k3: "\<forall>k. n \<le> k \<longrightarrow> items q3 ! k = items q1 ! k"
      and p3: "positions_ok q1 \<longrightarrow> positions_ok q3"
      and h3: "ordering_ok q1 \<and>
                ((heap_but_down ?R1 (entries q1) n i
                    \<and> (0 < i \<longrightarrow> \<not> ?R1 (entries q1 ! i) (entries q1 ! parent i)))
                 \<or> (heap_but_up ?R1 (entries q1) n i
                    \<and> (\<forall>c. 0 < c \<and> c < n \<and> parent c = i
                          \<longrightarrow> \<not> ?R1 (entries q1 ! c) (entries q1 ! i))))
              \<longrightarrow> heap_upto ?R1 (entries q3) n"
      using repair_result [OF w1 i_n n1] by blast
    have st: "(if n \<noteq> i then
                 do { q1 \<leftarrow> Swap q i n;
                      (moved, q2) \<leftarrow> down q1 i n;
                      if \<not> moved then up q2 i else Some q2 }
               else Some q) = Some q3"
      using False sw d u by simp
    have r: "rearranged q q3" using rearranged_trans [OF r1 r3] .
    have last: "items q3 ! n = items q ! i" using k3 i1 nl by simp
    have po: "positions_ok q \<longrightarrow> positions_ok q3"
      using Swap_positions [OF w _ il nl sw] p3 by blast
    have R1: "?R1 = ?R" using r1 unfolding rearranged_def by simp
    have hp: "heap_upto ?R (entries q3) n" if ok: "ordering_ok q" and hi: "heap_invariant q"
    proof -
      have sw': "strict_weak ?R" using ok unfolding ordering_ok_def .
      have "heap_upto ?R (entries q) (Suc n)" using hi heap_invariant_iff [OF w] len by simp
      then have hn: "heap_upto ?R (entries q) n" by (rule heap_upto_mono) simp
      have e1: "entries q1 = (entries q)[i := entries q ! n, n := entries q ! i]"
        using Swap_entries [OF r1 i1 il nl] .
      have same: "\<forall>k<n. k \<noteq> i \<longrightarrow> entries q1 ! k = entries q ! k" unfolding e1 by simp
      have "(heap_but_down ?R (entries q1) n i
                    \<and> (0 < i \<longrightarrow> \<not> ?R (entries q1 ! i) (entries q1 ! parent i)))
                 \<or> (heap_but_up ?R (entries q1) n i
                    \<and> (\<forall>c. 0 < c \<and> c < n \<and> parent c = i
                          \<longrightarrow> \<not> ?R (entries q1 ! c) (entries q1 ! i)))"
        using key_change [OF sw' hn i_n same] .
      moreover have "ordering_ok q1" using ok rearranged_ordering [OF r1] by simp
      ultimately show ?thesis using h3 unfolding R1 by blast
    qed
    show ?thesis using st r last po hp by blast
  qed
  then obtain q3 where st: "(if n \<noteq> i then
                 do { q1 \<leftarrow> Swap q i n;
                      (moved, q2) \<leftarrow> down q1 i n;
                      if \<not> moved then up q2 i else Some q2 }
               else Some q) = Some q3"
    and r: "rearranged q q3" and last: "items q3 ! n = items q ! i"
    and p3: "positions_ok q \<longrightarrow> positions_ok q3"
    and h3: "ordering_ok q \<and> heap_invariant q \<longrightarrow> heap_upto ?R (entries q3) n"
    by blast
  obtain q4 it it4 where P: "Pop q3 = Some (items q ! i, q4)"
    and it: "objs q (items q ! i) = Some it" "objs q4 (items q ! i) = Some it4"
       "Value it4 = Value it" "Index it4 = - 1"
    and w4: "well_formed q4"
    and f4: "comparator q4 = comparator q" "isMaxHeap q4 = isMaxHeap q" "nxt q4 = nxt q"
    and i4: "items q4 = take n (items q3)" and e4: "entries q4 = take n (entries q3)"
    and p4: "positions_ok q3 \<longrightarrow> positions_ok q4"
    and ms: "mset (entries q) = add_mset (entries q ! i) (mset (entries q4))"
    and fr: "\<forall>a. a \<notin> set (items q) \<longrightarrow> objs q4 a = objs q a"
    and st4: "set (items q4) = set (items q) - {items q ! i}"
    using Pop_after [OF w r len i_le last] by blast
  have hR: "heap_Remove q i = Some (items q ! i, q4)"
    unfolding heap_Remove_def Let_def ne(2) using ne(1) st P by simp
  have Rm: "Remove q h = Some (Found (Value it), q4)"
    unfolding Remove_def using h guard hR it(2,3) unfolding i_def by simp
  have l3: "length (items q3) = Suc n" using rearranged_length [OF r] len by simp
  have l4: "Suc (length (items q4)) = length (items q)" unfolding i4 using l3 len by simp
  have po: "positions_ok q \<longrightarrow> positions_ok q4" using p3 p4 by blast
  have hp: "heap_invariant q4" if ok: "ordering_ok q" and hi: "heap_invariant q"
  proof -
    have "heap_upto ?R (entries q3) n" using h3 ok hi by simp
    moreover have "n \<le> length (entries q3)" using l3 by (simp add: length_entries)
    ultimately have "heap_upto ?R (entries q4) n" unfolding e4 using heap_upto_take by blast
    then show ?thesis using heap_invariant_iff [OF w4] f4 l4 len by simp
  qed
  show ?thesis
    using Rm it(1,2,4) w4 f4 l4 st4 po hp ms fr unfolding i_def by blast
qed

lemma entry_eq_fields:
  "map_option entry x = map_option entry y
     \<Longrightarrow> map_option Value x = map_option Value y \<and> map_option Priority x = map_option Priority y"
  by (cases x; cases y) (simp_all add: entry_def)

lemma UpdatePriority_result:
  assumes w: "well_formed q" and h: "objs q h = Some ith"
    and live: "0 \<le> Index ith" "Index ith < int (length (items q))"
  shows "\<exists>q'. UpdatePriority q h p = Some q' \<and> well_formed q'
           \<and> comparator q' = comparator q \<and> isMaxHeap q' = isMaxHeap q \<and> nxt q' = nxt q
           \<and> mset (items q') = mset (items q)
           \<and> (\<forall>a. map_option Value (objs q' a) = map_option Value (objs q a))
           \<and> (\<forall>a. a \<noteq> h \<longrightarrow> map_option Priority (objs q' a) = map_option Priority (objs q a))
           \<and> map_option Priority (objs q' h) = Some p
           \<and> (\<forall>a. a \<notin> set (items q) \<and> a \<noteq> h \<longrightarrow> objs q' a = objs q a)
           \<and> (positions_ok q \<longrightarrow> positions_ok q')
           \<and> (ordering_ok q \<and> positions_ok q \<and> heap_invariant q \<longrightarrow> heap_invariant q')"
proof -
  let ?R = "outranks (comparator q) (isMaxHeap q)"
  let ?n = "length (items q)"
  define i where "i = nat (Index ith)"
  define q1 where "q1 = q\<lparr>objs := (objs q)(h \<mapsto> ith\<lparr>Priority := p\<rparr>)\<rparr>"
  have il: "i < ?n" unfolding i_def using live by simp
  have guard: "\<not> (Index ith < 0 \<or> int ?n \<le> Index ith)" using live by simp
  have f1: "items q1 = items q" "comparator q1 = comparator q" "isMaxHeap q1 = isMaxHeap q"
    "nxt q1 = nxt q" "objs q1 = (objs q)(h \<mapsto> ith\<lparr>Priority := p\<rparr>)"
    unfolding q1_def by simp_all
  have dm: "dom (objs q1) = dom (objs q)" unfolding f1 using h by auto
  have d1: "distinct (items q1)" unfolding f1 using w by (rule well_formed_distinct)
  have s1: "set (items q1) \<subseteq> dom (objs q1)" unfolding dm f1(1) using w by (rule well_formed_subset)
  have n1: "dom (objs q1) = {a. a < nxt q1}" unfolding dm f1(4) using w by (rule well_formed_dom)
  have w1: "well_formed q1" using d1 s1 n1 by (rule well_formedI)
  have ix: "map_option Index (objs q1 a) = map_option Index (objs q a)" for a
    unfolding f1 using h by simp
  have po1: "positions_ok q1" if "positions_ok q"
    using that unfolding positions_ok_def f1(1) ix .
  have il1: "i < length (items q1)" "length (items q1) \<le> length (items q1)"
    unfolding f1 using il by simp_all
  let ?R1 = "outranks (comparator q1) (isMaxHeap q1)"
  obtain moved q2 q3 where d: "down q1 i (length (items q1)) = Some (moved, q2)"
    and u: "(if \<not> moved then up q2 i else Some q2) = Some q3"
    and r3: "rearranged q1 q3"
    and p3: "positions_ok q1 \<longrightarrow> positions_ok q3"
    and h3: "ordering_ok q1 \<and>
              ((heap_but_down ?R1 (entries q1) (length (items q1)) i
                  \<and> (0 < i \<longrightarrow> \<not> ?R1 (entries q1 ! i) (entries q1 ! parent i)))
               \<or> (heap_but_up ?R1 (entries q1) (length (items q1)) i
                  \<and> (\<forall>c. 0 < c \<and> c < length (items q1) \<and> parent c = i
                        \<longrightarrow> \<not> ?R1 (entries q1 ! c) (entries q1 ! i))))
            \<longrightarrow> heap_upto ?R1 (entries q3) (length (items q1))"
    using repair_result [OF w1 il1] by blast
  have hF: "heap_Fix q1 i = Some q3"
    unfolding heap_Fix_def Len_def using d u by simp
  have hF': "heap_Fix (q\<lparr>objs := (objs q)(h \<mapsto> ith\<lparr>Priority := p\<rparr>)\<rparr>) (nat (Index ith)) = Some q3"
    using hF unfolding q1_def i_def .
  have U: "UpdatePriority q h p = Some q3"
    unfolding UpdatePriority_def Let_def using h guard hF' by simp
  have w3: "well_formed q3" using rearranged_well_formed [OF r3 w1] .
  have f3: "comparator q3 = comparator q" "isMaxHeap q3 = isMaxHeap q" "nxt q3 = nxt q"
    "mset (items q3) = mset (items q)"
    using r3 f1 unfolding rearranged_def by simp_all
  have e3: "map_option entry (objs q3 a) = map_option entry (objs q1 a)" for a
    using r3 unfolding rearranged_def by blast
  have v3: "map_option Value (objs q3 a) = map_option Value (objs q a)" for a
  proof -
    have "map_option Value (objs q3 a) = map_option Value (objs q1 a)"
      using entry_eq_fields [OF e3] by blast
    also have "\<dots> = map_option Value (objs q a)" unfolding f1 using h by simp
    finally show ?thesis .
  qed
  have pr3: "map_option Priority (objs q3 a) = map_option Priority (objs q a)" if "a \<noteq> h" for a
  proof -
    have "map_option Priority (objs q3 a) = map_option Priority (objs q1 a)"
      using entry_eq_fields [OF e3] by blast
    also have "\<dots> = map_option Priority (objs q a)" unfolding f1 using that by simp
    finally show ?thesis .
  qed
  have prh: "map_option Priority (objs q3 h) = Some p"
  proof -
    have "map_option Priority (objs q3 h) = map_option Priority (objs q1 h)"
      using entry_eq_fields [OF e3] by blast
    then show ?thesis unfolding f1 by simp
  qed
  have fr: "\<forall>a. a \<notin> set (items q) \<and> a \<noteq> h \<longrightarrow> objs q3 a = objs q a"
  proof (intro allI impI)
    fix a assume a: "a \<notin> set (items q) \<and> a \<noteq> h"
    then have "objs q3 a = objs q1 a" using r3 unfolding rearranged_def f1(1) by blast
    then show "objs q3 a = objs q a" unfolding f1 using a by simp
  qed
  have po: "positions_ok q \<longrightarrow> positions_ok q3" using po1 p3 by blast
  have R1: "?R1 = ?R" unfolding f1 ..
  have hp: "heap_invariant q3" if ok: "ordering_ok q" and pq: "positions_ok q" and hi: "heap_invariant q"
  proof -
    have sw': "strict_weak ?R" using ok unfolding ordering_ok_def .
    have hn: "heap_upto ?R (entries q) ?n" using hi heap_invariant_iff [OF w] by simp
    have same: "\<forall>k<?n. k \<noteq> i \<longrightarrow> entries q1 ! k = entries q ! k"
    proof (intro allI impI)
      fix k assume k: "k < ?n" and ki: "k \<noteq> i"
      have "items q ! k \<noteq> h"
      proof
        assume e: "items q ! k = h"
        have "map_option Index (objs q (items q ! k)) = Some (int k)"
          using pq k unfolding positions_ok_def by simp
        then have "Index ith = int k" using e h by simp
        then show False using ki unfolding i_def by simp
      qed
      then show "entries q1 ! k = entries q ! k"
        using k unfolding entries_def f1 by simp
    qed
    have "(heap_but_down ?R (entries q1) ?n i
                    \<and> (0 < i \<longrightarrow> \<not> ?R (entries q1 ! i) (entries q1 ! parent i)))
                 \<or> (heap_but_up ?R (entries q1) ?n i
                    \<and> (\<forall>c. 0 < c \<and> c < ?n \<and> parent c = i
                          \<longrightarrow> \<not> ?R (entries q1 ! c) (entries q1 ! i)))"
      using key_change [OF sw' hn il same] .
    moreover have "ordering_ok q1" using ok unfolding ordering_ok_def f1 .
    ultimately have "heap_upto ?R (entries q3) ?n" using h3 unfolding R1 f1(1) by blast
    moreover have "length (items q3) = ?n" using rearranged_length [OF r3] f1 by simp
    ultimately show ?thesis using heap_invariant_iff [OF w3] f3 by simp
  qed
  show ?thesis using U w3 f3 v3 pr3 prh fr po hp by blast
qed

section \<open>Operation sequences\<close>

lemma NewWithComparator_eq:
  "NewWithComparator c m = Some \<lparr>items = [], comparator = c, isMaxHeap = m, objs = Map.empty, nxt = 0\<rparr>"
  by (simp add: NewWithComparator_def heap_Init_empty)

lemma New_eq:
  "New = Some \<lparr>items = [], comparator = None, isMaxHeap = False, objs = Map.empty, nxt = 0\<rparr>"
  by (simp add: New_def heap_Init_empty)

lemma NewMax_eq:
  "NewMax = Some \<lparr>items = [], comparator = None, isMaxHeap = True, objs = Map.empty, nxt = 0\<rparr>"
  by (simp add: NewMax_def heap_Init_empty)

lemma constructed_empty:
  assumes "constructed q"
  shows "items q = [] \<and> objs q = Map.empty \<and> nxt q = 0"
proof -
  have "\<exists>c m. \<lparr>items = [], comparator = c, isMaxHeap = m, objs = Map.empty, nxt = 0\<rparr> = q"
    using assms unfolding constructed_def New_eq NewMax_eq NewWithComparator_eq by auto
  then obtain c m
    where "q = \<lparr>items = [], comparator = c, isMaxHeap = m, objs = Map.empty, nxt = 0\<rparr>"
    by (auto dest: sym)
  then show ?thesis by simp
qed

lemma empty_invariants:
  assumes "items q = []" and "objs q = Map.empty" and "nxt q = 0"
  shows "well_formed q \<and> positions_ok q \<and> heap_invariant q"
  using assms unfolding well_formed_def positions_ok_def heap_invariant_def by simp

lemma builtin_ordering_ok: "comparator q = None \<Longrightarrow> ordering_ok q"
  unfolding ordering_ok_def strict_weak_def outranks_def by auto

lemma exec_step:
  assumes w: "well_formed q" and po: "positions_ok q"
  shows "(\<forall>q'. exec x q = Some q' \<longrightarrow>
            well_formed q' \<and> positions_ok q'
            \<and> comparator q' = comparator q \<and> isMaxHeap q' = isMaxHeap q
            \<and> nxt q' = (case x of OpEnqueue v p \<Rightarrow> Suc (nxt q) | _ \<Rightarrow> nxt q)
            \<and> (ordering_ok q \<and> heap_invariant q \<longrightarrow> heap_invariant q'))
       \<and> (handles_allocated [x] (nxt q) \<longrightarrow> exec x q \<noteq> None)"
proof (cases x)
  case (OpEnqueue v p)
  obtain q1 where "Enqueue q v p = Some (nxt q, q1)" "well_formed q1"
      "comparator q1 = comparator q" "isMaxHeap q1 = isMaxHeap q" "nxt q1 = Suc (nxt q)"
      "positions_ok q \<longrightarrow> positions_ok q1"
      "ordering_ok q \<and> heap_invariant q \<longrightarrow> heap_invariant q1"
    using Enqueue_result [OF w, of v p] by blast
  then show ?thesis using OpEnqueue po by simp
next
  case OpDequeue
  show ?thesis
  proof (cases "items q = []")
    case True
    then have "Dequeue q = Some (NotFound, q)" by (simp add: Dequeue_def)
    then show ?thesis using OpDequeue w po by simp
  next
    case False
    obtain q1 r where "Dequeue q = Some (r, q1)" "well_formed q1"
        "comparator q1 = comparator q" "isMaxHeap q1 = isMaxHeap q" "nxt q1 = nxt q"
        "positions_ok q \<longrightarrow> positions_ok q1"
        "ordering_ok q \<and> heap_invariant q \<longrightarrow> heap_invariant q1"
      using Dequeue_result [OF w False] by blast
    then show ?thesis using OpDequeue po by simp
  qed
next
  case OpPeek
  have "Peek q = Some (NotFound, q) \<or> (\<exists>v. Peek q = Some (Found v, q))"
  proof (cases "items q = []")
    case True
    then show ?thesis by (simp add: Peek_def)
  next
    case False
    then show ?thesis using Peek_result [OF w False] by blast
  qed
  then show ?thesis using OpPeek w po by auto
next
  case (OpUpdatePriority h p)
  show ?thesis
  proof (cases "objs q h")
    case None
    then have "UpdatePriority q h p = None" by (simp add: UpdatePriority_def)
    moreover have "\<not> h < nxt q" using None well_formed_dom [OF w] by blast
    ultimately show ?thesis using OpUpdatePriority by simp
  next
    case (Some ith)
    show ?thesis
    proof (cases "Index ith < 0 \<or> Index ith \<ge> int (length (items q))")
      case True
      then have "UpdatePriority q h p = Some q" using Some by (simp add: UpdatePriority_def)
      then show ?thesis using OpUpdatePriority w po by simp
    next
      case False
      then have live: "0 \<le> Index ith" "Index ith < int (length (items q))" by simp_all
      obtain q1 where "UpdatePriority q h p = Some q1" "well_formed q1"
          "comparator q1 = comparator q" "isMaxHeap q1 = isMaxHeap q" "nxt q1 = nxt q"
          "positions_ok q \<longrightarrow> positions_ok q1"
          "ordering_ok q \<and> positions_ok q \<and> heap_invariant q \<longrightarrow> heap_invariant q1"
        using UpdatePriority_result [OF w Some live, of p] by blast
      then show ?thesis using OpUpdatePriority po by simp
    qed
  qed
next
  case (OpRemove h)
  show ?thesis
  proof (cases "objs q h")
    case None
    then have "Remove q h = None" by (simp add: Remove_def)
    moreover have "\<not> h < nxt q" using None well_formed_dom [OF w] by blast
    ultimately show ?thesis using OpRemove by simp
  next
    case (Some ith)
    show ?thesis
    proof (cases "Index ith < 0 \<or> Index ith \<ge> int (length (items q))")
      case True
      then have "Remove q h = Some (NotFound, q)" using Some by (simp add: Remove_def)
      then show ?thesis using OpRemove w po by simp
    next
      case False
      then have live: "0 \<le> Index ith" "Index ith < int (length (items q))" by simp_all
      obtain q1 r where "Remove q h = Some (r, q1)" "well_formed q1"
          "comparator q1 = comparator q" "isMaxHeap q1 = isMaxHeap q" "nxt q1 = nxt q"
          "positions_ok q \<longrightarrow> positions_ok q1"
          "ordering_ok q \<and> heap_invariant q \<longrightarrow> heap_invariant q1"
        using Remove_result [OF w Some live] by blast
      then show ?thesis using OpRemove po by simp
    qed
  qed
next
  case OpClear
  have "Clear q = Some (q\<lparr>items := []\<rparr>)" by (rule Clear_result)
  then show ?thesis
    using OpClear well_formed_empty [OF w] positions_ok_empty [of q] heap_invariant_empty [of q]
    by simp
qed

lemma handles_allocated_Cons:
  "handles_allocated (x # xs) k
     \<Longrightarrow> handles_allocated [x] k
         \<and> handles_allocated xs (case x of OpEnqueue v p \<Rightarrow> Suc k | _ \<Rightarrow> k)"
  by (cases x) simp_all

lemma run_invariants:
  assumes "well_formed q" and "positions_ok q"
  shows "(\<forall>q'. run ops q = Some q' \<longrightarrow>
            well_formed q' \<and> positions_ok q'
            \<and> comparator q' = comparator q \<and> isMaxHeap q' = isMaxHeap q
            \<and> (ordering_ok q \<and> heap_invariant q \<longrightarrow> heap_invariant q'))
       \<and> (handles_allocated ops (nxt q) \<longrightarrow> run ops q \<noteq> None)"
  using assms
proof (induction ops arbitrary: q)
  case Nil
  then show ?case by simp
next
  case (Cons x xs)
  note st = exec_step [OF Cons.prems, of x]
  show ?case
  proof (cases "exec x q")
    case None
    then have "\<not> handles_allocated [x] (nxt q)" using st by blast
    then have "\<not> handles_allocated (x # xs) (nxt q)" using handles_allocated_Cons by blast
    then show ?thesis using None by simp
  next
    case (Some q1)
    then have q1: "well_formed q1" "positions_ok q1"
        "comparator q1 = comparator q" "isMaxHeap q1 = isMaxHeap q"
        "nxt q1 = (case x of OpEnqueue v p \<Rightarrow> Suc (nxt q) | _ \<Rightarrow> nxt q)"
        "ordering_ok q \<and> heap_invariant q \<longrightarrow> heap_invariant q1"
      using st by blast+
    have ok1: "ordering_ok q1 = ordering_ok q" unfolding ordering_ok_def q1(3,4) ..
    note ih = Cons.IH [OF q1(1,2)]
    have r: "run (x # xs) q = run xs q1" using Some by simp
    have a: "handles_allocated (x # xs) (nxt q) \<longrightarrow> handles_allocated xs (nxt q1)"
      using handles_allocated_Cons [of x xs "nxt q"] q1(5) by simp
    show ?thesis unfolding r using ih q1 ok1 a by auto
  qed
qed

section \<open>Enqueue everything, then dequeue everything\<close>

lemma enqueue_all_result:
  assumes "well_formed q" and "ordering_ok q" and "heap_invariant q"
  shows "\<exists>q'. enqueue_all xs q = Some q' \<and> well_formed q' \<and> ordering_ok q' \<and> heap_invariant q'
           \<and> comparator q' = comparator q \<and> isMaxHeap q' = isMaxHeap q
           \<and> mset (entries q') = mset xs + mset (entries q)
           \<and> length (items q') = length xs + length (items q)"
  using assms
proof (induction xs arbitrary: q)
  case Nil
  then show ?case by simp
next
  case (Cons x xs)
  obtain v p where x: "x = (v, p)" by (cases x)
  obtain q1 where e: "Enqueue q v p = Some (nxt q, q1)" and w1: "well_formed q1"
    and f1: "comparator q1 = comparator q" "isMaxHeap q1 = isMaxHeap q"
    and l1: "length (items q1) = Suc (length (items q))"
    and h1: "ordering_ok q \<and> heap_invariant q \<longrightarrow> heap_invariant q1"
    and m1: "mset (entries q1) = add_mset (v, p) (mset (entries q))"
    using Enqueue_result [OF Cons.prems(1), of v p] by blast
  have ok1: "ordering_ok q1" using Cons.prems(2) unfolding ordering_ok_def f1 .
  have hi1: "heap_invariant q1" using h1 Cons.prems(2,3) by simp
  obtain q' where r: "enqueue_all xs q1 = Some q'" "well_formed q'" "ordering_ok q'"
      "heap_invariant q'" "comparator q' = comparator q1" "isMaxHeap q' = isMaxHeap q1"
      "mset (entries q') = mset xs + mset (entries q1)"
      "length (items q') = length xs + length (items q1)"
    using Cons.IH [OF w1 ok1 hi1] by blast
  have "enqueue_all (x # xs) q = Some q'" using x e r(1) by simp
  moreover have "mset (entries q') = mset (x # xs) + mset (entries q)" using r(7) m1 x by simp
  moreover have "length (items q') = length (x # xs) + length (items q)" using r(8) l1 by simp
  ultimately show ?case using r(2,3,4,5,6) f1 by auto
qed

lemma dequeue_n_result:
  assumes "well_formed q" and "ordering_ok q" and "heap_invariant q" and "length (items q) = n"
  shows "\<exists>es q'. dequeue_n n q = Some (map (\<lambda>e. Found (fst e)) es, q')
           \<and> mset es = mset (entries q)
           \<and> sorted_wrt (\<lambda>x y. \<not> outranks (comparator q) (isMaxHeap q) y x) es
           \<and> items q' = []"
  using assms
proof (induction n arbitrary: q)
  case 0
  then have "items q = []" by simp
  then have "entries q = []" by (simp add: entries_def)
  then show ?case using \<open>items q = []\<close> by simp
next
  case (Suc n)
  let ?R = "outranks (comparator q) (isMaxHeap q)"
  note w = Suc.prems(1) and ok = Suc.prems(2) and hi = Suc.prems(3) and len = Suc.prems(4)
  have ne: "items q \<noteq> []" using len by auto
  obtain q1 it where d: "Dequeue q = Some (Found (Value it), q1)"
    and it: "objs q (items q ! 0) = Some it" and w1: "well_formed q1"
    and f1: "comparator q1 = comparator q" "isMaxHeap q1 = isMaxHeap q"
    and l1: "Suc (length (items q1)) = length (items q)"
    and h1: "ordering_ok q \<and> heap_invariant q \<longrightarrow> heap_invariant q1"
    and m1: "mset (entries q) = add_mset (entries q ! 0) (mset (entries q1))"
    using Dequeue_result [OF w ne] by blast
  define e where "e = entries q ! 0"
  have ve: "Value it = fst e"
    unfolding e_def using it ne by (simp add: entries_nth entry_def)
  have ok1: "ordering_ok q1" using ok unfolding ordering_ok_def f1 .
  have hi1: "heap_invariant q1" using h1 ok hi by simp
  have ln: "length (items q1) = n" using l1 len by simp
  obtain es q' where r: "dequeue_n n q1 = Some (map (\<lambda>e. Found (fst e)) es, q')"
      "mset es = mset (entries q1)"
      "sorted_wrt (\<lambda>x y. \<not> outranks (comparator q1) (isMaxHeap q1) y x) es" "items q' = []"
    using Suc.IH [OF w1 ok1 hi1 ln] by blast
  have sw: "strict_weak ?R" using ok unfolding ordering_ok_def .
  have hp: "heap_upto ?R (entries q) (length (items q))" using hi heap_invariant_iff [OF w] by simp
  have low: "\<not> ?R y e" if "y \<in> set es" for y
  proof -
    have "y \<in># mset (entries q1)" using that r(2) by (metis set_mset_mset)
    then have "y \<in># mset (entries q)" unfolding m1 by simp
    then have "y \<in> set (entries q)" by simp
    then obtain k where k: "k < length (entries q)" "entries q ! k = y"
      by (metis in_set_conv_nth)
    then have "k < length (items q)" by (simp add: length_entries)
    then show ?thesis using root_min [OF sw hp] k(2) unfolding e_def by blast
  qed
  have "dequeue_n (Suc n) q = Some (map (\<lambda>e. Found (fst e)) (e # es), q')"
    using d r(1) ve by simp
  moreover have "mset (e # es) = mset (entries q)" using m1 r(2) unfolding e_def by simp
  moreover have "sorted_wrt (\<lambda>x y. \<not> ?R y x) (e # es)" using r(3) low unfolding f1 by simp
  ultimately show ?case using r(4) by blast
qed

lemma drain_sorted:
  assumes c: "constructed q0" and ok: "ordering_ok q0"
  shows "\<exists>q1 es q2. enqueue_all xs q0 = Some q1
           \<and> dequeue_n (length xs) q1 = Some (map (\<lambda>e. Found (fst e)) es, q2)
           \<and> mset es = mset xs
           \<and> sorted_wrt (\<lambda>x y. \<not> outranks (comparator q0) (isMaxHeap q0) y x) es
           \<and> items q2 = []"
proof -
  have e0: "items q0 = []" "objs q0 = Map.empty" "nxt q0 = 0" using constructed_empty [OF c] by simp_all
  have i0: "well_formed q0" "heap_invariant q0" using empty_invariants [OF e0] by simp_all
  have en: "entries q0 = []" using e0 by (simp add: entries_def)
  obtain q1 where q1: "enqueue_all xs q0 = Some q1" "well_formed q1" "ordering_ok q1"
      "heap_invariant q1" "comparator q1 = comparator q0" "isMaxHeap q1 = isMaxHeap q0"
      "mset (entries q1) = mset xs + mset (entries q0)"
      "length (items q1) = length xs + length (items q0)"
    using enqueue_all_result [OF i0(1) ok i0(2)] by blast
  have l: "length (items q1) = length xs" using q1(8) e0 by simp
  obtain es q2 where "dequeue_n (length xs) q1 = Some (map (\<lambda>e. Found (fst e)) es, q2)"
      "mset es = mset (entries q1)"
      "sorted_wrt (\<lambda>x y. \<not> outranks (comparator q1) (isMaxHeap q1) y x) es" "items q2 = []"
    using dequeue_n_result [OF q1(2,3,4) l] by blast
  then show ?thesis using q1(1,5,6,7) en by auto
qed

section \<open>The example inputs\<close>

lemma lengthComparator_ok: "strict_weak (outranks (Some lengthComparator) m)"
  unfolding strict_weak_def outranks_def lengthComparator_def by (auto split: if_splits)

lemma length_queue_constructed: "constructed length_queue"
  unfolding constructed_def length_queue_def NewWithComparator_eq by simp

lemma plain_queue_constructed: "constructed plain_queue"
  unfolding constructed_def plain_queue_def New_eq by simp

lemma example_script_allocated: "handles_allocated example_script 0"
  unfolding example_script_def by simp

lemma after_dequeue_reached:
  "do { q0 \<leftarrow> New; (a, q1) \<leftarrow> Enqueue q0 ''a'' 1; (b, q2) \<leftarrow> Enqueue q1 ''b'' 2;
        (r, q3) \<leftarrow> Dequeue q2; Some (a, b, r, q3) }
   = Some (0, 1, Found ''a'', after_dequeue)"
  by (simp add: New_eq Enqueue_def heap_Push_def Push_def set_Index_def Less_def item_at_def
        Swap_def Dequeue_def heap_Pop_def Pop_def down_def Len_def Let_def after_dequeue_def
        up.simps down_loop.simps fun_upd_twist)

lemma after_dequeue_well_formed: "well_formed after_dequeue"
  unfolding well_formed_def after_dequeue_def by (auto simp: less_Suc_eq numeral_2_eq_2)

text \<open>The invariant as the spec states it agrees with the one that \<^verbatim>\<open>Less\<close> reports.\<close>

lemma heap_ordered_iff:
  assumes w: "well_formed q"
  shows "heap_ordered q
     \<longleftrightarrow> heap_upto (outranks (comparator q) (isMaxHeap q)) (entries q) (length (items q))"
proof
  let ?R = "outranks (comparator q) (isMaxHeap q)"
  assume h: "heap_ordered q"
  show "heap_upto ?R (entries q) (length (items q))"
    unfolding heap_upto_def
  proof (intro allI impI)
    fix c assume c: "0 < c \<and> c < length (items q)"
    let ?i = "parent c"
    have pc: "?i < c" using c by (simp add: parent_less)
    then have il: "?i < length (items q)" using c by simp
    have cc: "c = 2 * ?i + 1 \<or> c = 2 * ?i + 2" using parent_eq_iff [of c ?i] c by simp
    have "child_in_order q ?i (2 * ?i + 1) \<and> child_in_order q ?i (2 * ?i + 2)"
      using h il unfolding heap_ordered_def by blast
    then have co: "child_in_order q ?i c" using cc by metis
    obtain a where a: "objs q (items q ! ?i) = Some a" using item_at_Some [OF w il] by blast
    obtain b where b: "objs q (items q ! c) = Some b" using item_at_Some [OF w, of c] c by blast
    have "\<not> ?R (entry b) (entry a)" using co c a b unfolding child_in_order_def by simp
    then show "\<not> ?R (entries q ! c) (entries q ! ?i)"
      using a b c il by (simp add: entries_nth)
  qed
next
  let ?R = "outranks (comparator q) (isMaxHeap q)"
  assume h: "heap_upto ?R (entries q) (length (items q))"
  have "child_in_order q i c"
    if i: "i < length (items q)" and c: "0 < c" "parent c = i" for i c
    unfolding child_in_order_def
  proof
    assume cl: "c < length (items q)"
    obtain a where a: "objs q (items q ! i) = Some a" using item_at_Some [OF w i] by blast
    obtain b where b: "objs q (items q ! c) = Some b" using item_at_Some [OF w cl] by blast
    have "\<not> ?R (entries q ! c) (entries q ! i)"
      using h c cl unfolding heap_upto_def by blast
    then have "\<not> ?R (entry b) (entry a)" using a b cl i by (simp add: entries_nth)
    then show "case objs q (items q ! i) of None \<Rightarrow> False
         | Some a \<Rightarrow> (case objs q (items q ! c) of None \<Rightarrow> False
                      | Some b \<Rightarrow> \<not> ?R (entry b) (entry a))"
      using a b by simp
  qed
  then show "heap_ordered q"
    unfolding heap_ordered_def using parent_child1 parent_child2 by simp
qed

lemma heap_ordered_invariant: "well_formed q \<Longrightarrow> heap_ordered q = heap_invariant q"
  using heap_ordered_iff heap_invariant_iff by blast

lemma heap_script_allocated: "handles_allocated heap_script 0"
  unfolding heap_script_def by simp

lemma heap_script_result:
  "map_option (\<lambda>q. (items q, map (\<lambda>p. map_option entry (objs q p)) (items q)))
      (run heap_script length_queue)
   = Some ([1, 4, 2, 0],
           [Some (''hi'', 0), Some (''abcd'', 0), Some (''goodbye'', 0), Some (''hello'', 7)])"
  by (simp add: heap_script_def length_queue_def Enqueue_def heap_Push_def Push_def set_Index_def
        Less_def item_at_def Swap_def Len_def Let_def lengthComparator_def up.simps
        down_loop.simps down_def Remove_def heap_Remove_def Pop_def UpdatePriority_def
        heap_Fix_def entry_def)

text \<open>The contract of the comparator is needed for the heap invariant: with
  \<open>always_before\<close> two insertions leave a child that outranks its parent.\<close>

lemma contract_needed:
  "\<exists>q. run [OpEnqueue ''a'' 0, OpEnqueue ''b'' 0]
          \<lparr>items = [], comparator = Some always_before, isMaxHeap = False,
             objs = Map.empty, nxt = 0\<rparr> = Some q
       \<and> items q = [1, 0] \<and> Less q 1 0 = Some True \<and> \<not> heap_invariant q
       \<and> \<not> heap_ordered q"
  by (simp add: Enqueue_def heap_Push_def Push_def set_Index_def Less_def item_at_def Swap_def
        Len_def Let_def always_before_def up.simps heap_invariant_def heap_ordered_def
        child_in_order_def outranks_def entry_def)

section \<open>Handles consumed by Dequeue and Remove\<close>

lemma stale_signals:
  assumes "stale q h"
  shows "UpdatePriority q h p = Some q \<and> Remove q h = Some (NotFound, q)"
proof -
  obtain it where "objs q h = Some it" "Index it = - 1"
    using assms unfolding stale_def by auto
  then show ?thesis by (simp add: UpdatePriority_def Remove_def)
qed

lemma exec_stale:
  assumes w: "well_formed q" and s: "stale q h" and e: "exec x q = Some q'"
  shows "stale q' h"
proof -
  obtain it where it: "objs q h = Some it" "Index it = - 1" and hn: "h \<notin> set (items q)"
    using s unfolding stale_def by auto
  have hx: "h \<noteq> nxt q" using it(1) well_formed_dom [OF w] by (metis domI mem_Collect_eq less_irrefl)
  have keep: "stale q' h" if "objs q' h = objs q h" "set (items q') \<subseteq> set (items q) \<union> {nxt q}"
    using that s hx unfolding stale_def by auto
  show ?thesis
  proof (cases x)
    case (OpEnqueue v p)
    obtain q1 where "Enqueue q v p = Some (nxt q, q1)"
        "set (items q1) = insert (nxt q) (set (items q))"
        "\<forall>a. a \<notin> set (items q) \<and> a \<noteq> nxt q \<longrightarrow> objs q1 a = objs q a"
      using Enqueue_result [OF w, of v p] by blast
    then show ?thesis using OpEnqueue e hn hx by (intro keep) auto
  next
    case OpDequeue
    show ?thesis
    proof (cases "items q = []")
      case True
      then have "Dequeue q = Some (NotFound, q)" by (simp add: Dequeue_def)
      then show ?thesis using OpDequeue e s by simp
    next
      case False
      obtain q1 r where "Dequeue q = Some (r, q1)"
          "set (items q1) = set (items q) - {items q ! 0}"
          "\<forall>a. a \<notin> set (items q) \<longrightarrow> objs q1 a = objs q a"
        using Dequeue_result [OF w False] by blast
      then show ?thesis using OpDequeue e hn by (intro keep) auto
    qed
  next
    case OpPeek
    have "Peek q = Some (NotFound, q) \<or> (\<exists>v. Peek q = Some (Found v, q))"
    proof (cases "items q = []")
      case True
      then show ?thesis by (simp add: Peek_def)
    next
      case False
      then show ?thesis using Peek_result [OF w False] by blast
    qed
    then show ?thesis using OpPeek e s by auto
  next
    case (OpUpdatePriority h' p)
    show ?thesis
    proof (cases "objs q h'")
      case None
      then show ?thesis using OpUpdatePriority e by (simp add: UpdatePriority_def)
    next
      case (Some ith)
      show ?thesis
      proof (cases "Index ith < 0 \<or> Index ith \<ge> int (length (items q))")
        case True
        then have "UpdatePriority q h' p = Some q" using Some by (simp add: UpdatePriority_def)
        then show ?thesis using OpUpdatePriority e s by simp
      next
        case False
        then have live: "0 \<le> Index ith" "Index ith < int (length (items q))" by simp_all
        have ne: "h \<noteq> h'" using it Some live by auto
        obtain q1 where "UpdatePriority q h' p = Some q1" "mset (items q1) = mset (items q)"
            "\<forall>a. a \<notin> set (items q) \<and> a \<noteq> h' \<longrightarrow> objs q1 a = objs q a"
          using UpdatePriority_result [OF w Some live, of p] by blast
        moreover have "set (items q1) = set (items q)" using calculation(2) by (rule mset_eq_setD)
        ultimately show ?thesis using OpUpdatePriority e hn ne by (intro keep) auto
      qed
    qed
  next
    case (OpRemove h')
    show ?thesis
    proof (cases "objs q h'")
      case None
      then show ?thesis using OpRemove e by (simp add: Remove_def)
    next
      case (Some ith)
      show ?thesis
      proof (cases "Index ith < 0 \<or> Index ith \<ge> int (length (items q))")
        case True
        then have "Remove q h' = Some (NotFound, q)" using Some by (simp add: Remove_def)
        then show ?thesis using OpRemove e s by simp
      next
        case False
        then have live: "0 \<le> Index ith" "Index ith < int (length (items q))" by simp_all
        obtain q1 r where "Remove q h' = Some (r, q1)"
            "set (items q1) = set (items q) - {items q ! nat (Index ith)}"
            "\<forall>a. a \<notin> set (items q) \<longrightarrow> objs q1 a = objs q a"
          using Remove_result [OF w Some live] by blast
        then show ?thesis using OpRemove e hn by (intro keep) auto
      qed
    qed
  next
    case OpClear
    have "Clear q = Some (q\<lparr>items := []\<rparr>)" by (rule Clear_result)
    then show ?thesis using OpClear e by (intro keep) auto
  qed
qed

lemma run_stale:
  assumes "well_formed q" and "positions_ok q" and "stale q h" and "run ops q = Some q'"
  shows "stale q' h"
  using assms
proof (induction ops arbitrary: q)
  case Nil
  then show ?case by simp
next
  case (Cons x xs)
  obtain q1 where q1: "exec x q = Some q1" "run xs q1 = Some q'"
    using Cons.prems(4) by (cases "exec x q") simp_all
  have "well_formed q1" "positions_ok q1"
    using exec_step [OF Cons.prems(1,2), of x] q1(1) by blast+
  moreover have "stale q1 h" using exec_stale [OF Cons.prems(1,3) q1(1)] .
  ultimately show ?case using Cons.IH q1(2) by blast
qed

text \<open>A handle that is in the queue and is consumed by \<^verbatim>\<open>Dequeue\<close> or by \<^verbatim>\<open>Remove\<close> is
  stale from then on, whatever operations follow: \<^verbatim>\<open>UpdatePriority\<close> leaves the state
  as it is and \<^verbatim>\<open>Remove\<close> returns not-found.\<close>

lemma consumed_handle_stays_stale:
  assumes c: "constructed q0" and r: "run ops q0 = Some q"
    and h: "h \<in> set (items q)"
    and consumed: "(items q ! 0 = h \<and> Dequeue q = Some (res, q1)) \<or> Remove q h = Some (res, q1)"
    and r2: "run ops2 q1 = Some q2"
  shows "UpdatePriority q2 h p = Some q2 \<and> Remove q2 h = Some (NotFound, q2)"
proof -
  have e0: "items q0 = []" "objs q0 = Map.empty" "nxt q0 = 0"
    using constructed_empty [OF c] by simp_all
  have i0: "well_formed q0" "positions_ok q0" using empty_invariants [OF e0] by simp_all
  have w: "well_formed q" and po: "positions_ok q"
    using run_invariants [OF i0, of ops] r by simp_all
  have ne: "items q \<noteq> []" using h by auto
  obtain k where k: "k < length (items q)" "items q ! k = h" using h by (metis in_set_conv_nth)
  obtain ith where ith: "objs q h = Some ith" "Index ith = int k"
    using po k unfolding positions_ok_def by auto
  have live: "0 \<le> Index ith" "Index ith < int (length (items q))" using ith k by simp_all
  have "well_formed q1 \<and> positions_ok q1 \<and> stale q1 h"
  proof (rule disjE [OF consumed])
    assume a: "items q ! 0 = h \<and> Dequeue q = Some (res, q1)"
    obtain q' it' where "Dequeue q = Some (Found (Value (the (objs q (items q ! 0)))), q')"
        "objs q' (items q ! 0) = Some it'" "Index it' = - 1" "well_formed q'"
        "positions_ok q \<longrightarrow> positions_ok q'"
        "set (items q') = set (items q) - {items q ! 0}"
      using Dequeue_result [OF w ne] by force
    then show ?thesis using a po unfolding stale_def by auto
  next
    assume a: "Remove q h = Some (res, q1)"
    obtain q' it' where "Remove q h = Some (Found (Value (the (objs q (items q ! nat (Index ith))))), q')"
        "objs q' (items q ! nat (Index ith)) = Some it'" "Index it' = - 1" "well_formed q'"
        "positions_ok q \<longrightarrow> positions_ok q'"
        "set (items q') = set (items q) - {items q ! nat (Index ith)}"
      using Remove_result [OF w ith(1) live] by force
    then show ?thesis using a po ith(2) k(2) unfolding stale_def by auto
  qed
  then have "stale q2 h" using run_stale r2 by blast
  then show ?thesis by (rule stale_signals)
qed

section \<open>The claims\<close>

text \<open>
  C1. Enqueue any values with their priorities on a queue made by \<^verbatim>\<open>New\<close>, then dequeue as
  many times as there were enqueues: every dequeue succeeds, the values come out with
  their priorities in non-decreasing order, they are the enqueued values, and the queue
  is empty afterwards. On a queue made by \<^verbatim>\<open>NewMax\<close> the priorities come out in
  non-increasing order.
\<close>

theorem priority_order:
  "(\<exists>q0 q1 es q2. New = Some q0 \<and> enqueue_all xs q0 = Some q1
       \<and> dequeue_n (length xs) q1 = Some (map (\<lambda>e. Found (fst e)) es, q2)
       \<and> mset es = mset xs \<and> sorted_wrt (\<lambda>a b. a \<le> b) (map snd es) \<and> items q2 = [])
   \<and> (\<exists>q0 q1 es q2. NewMax = Some q0 \<and> enqueue_all xs q0 = Some q1
       \<and> dequeue_n (length xs) q1 = Some (map (\<lambda>e. Found (fst e)) es, q2)
       \<and> mset es = mset xs \<and> sorted_wrt (\<lambda>a b. a \<ge> b) (map snd es) \<and> items q2 = [])"
proof
  define q0 :: "'a PriorityQueue"
    where "q0 = \<lparr>items = [], comparator = None, isMaxHeap = False, objs = Map.empty, nxt = 0\<rparr>"
  have n: "New = Some q0" unfolding q0_def by (rule New_eq)
  have c: "constructed q0" unfolding constructed_def using n by simp
  have ok: "ordering_ok q0" by (rule builtin_ordering_ok) (simp add: q0_def)
  obtain q1 es q2 where r: "enqueue_all xs q0 = Some q1"
      "dequeue_n (length xs) q1 = Some (map (\<lambda>e. Found (fst e)) es, q2)" "mset es = mset xs"
      "sorted_wrt (\<lambda>x y. \<not> outranks (comparator q0) (isMaxHeap q0) y x) es" "items q2 = []"
    using drain_sorted [OF c ok] by blast
  have "(\<lambda>x y. \<not> outranks (comparator q0) (isMaxHeap q0) y x) = (\<lambda>x y :: 'a \<times> int. snd x \<le> snd y)"
    unfolding q0_def outranks_def by (auto simp: fun_eq_iff)
  then have "sorted_wrt (\<lambda>a b. a \<le> b) (map snd es)" using r(4) by (simp add: sorted_wrt_map)
  then show "\<exists>q0 q1 es q2. New = Some q0 \<and> enqueue_all xs q0 = Some q1
       \<and> dequeue_n (length xs) q1 = Some (map (\<lambda>e. Found (fst e)) es, q2)
       \<and> mset es = mset xs \<and> sorted_wrt (\<lambda>a b. a \<le> b) (map snd es) \<and> items q2 = []"
    using n r(1,2,3,5) by blast
next
  define q0 :: "'a PriorityQueue"
    where "q0 = \<lparr>items = [], comparator = None, isMaxHeap = True, objs = Map.empty, nxt = 0\<rparr>"
  have n: "NewMax = Some q0" unfolding q0_def by (rule NewMax_eq)
  have c: "constructed q0" unfolding constructed_def using n by simp
  have ok: "ordering_ok q0" by (rule builtin_ordering_ok) (simp add: q0_def)
  obtain q1 es q2 where r: "enqueue_all xs q0 = Some q1"
      "dequeue_n (length xs) q1 = Some (map (\<lambda>e. Found (fst e)) es, q2)" "mset es = mset xs"
      "sorted_wrt (\<lambda>x y. \<not> outranks (comparator q0) (isMaxHeap q0) y x) es" "items q2 = []"
    using drain_sorted [OF c ok] by blast
  have "(\<lambda>x y. \<not> outranks (comparator q0) (isMaxHeap q0) y x) = (\<lambda>x y :: 'a \<times> int. snd x \<ge> snd y)"
    unfolding q0_def outranks_def by (auto simp: fun_eq_iff)
  then have "sorted_wrt (\<lambda>a b. a \<ge> b) (map snd es)" using r(4) by (simp add: sorted_wrt_map)
  then show "\<exists>q0 q1 es q2. NewMax = Some q0 \<and> enqueue_all xs q0 = Some q1
       \<and> dequeue_n (length xs) q1 = Some (map (\<lambda>e. Found (fst e)) es, q2)
       \<and> mset es = mset xs \<and> sorted_wrt (\<lambda>a b. a \<ge> b) (map snd es) \<and> items q2 = []"
    using n r(1,2,3,5) by blast
qed

theorem priority_order_witness:
  "\<exists>q0 q1 es q2. New = Some q0
      \<and> enqueue_all [(''low'', 10), (''high'', 1), (''medium'', 5)] q0 = Some q1
      \<and> dequeue_n 3 q1 = Some (map (\<lambda>e. Found (fst e)) es, q2)
      \<and> mset es = mset [(''low'', 10 :: int), (''high'', 1), (''medium'', 5)]
      \<and> sorted_wrt (\<lambda>a b. a \<le> b) (map snd es) \<and> items q2 = []"
proof -
  have l: "length [(''low'', 10 :: int), (''high'', 1), (''medium'', 5)] = 3" by simp
  show ?thesis
    by (rule conjunct1 [OF priority_order [of "[(''low'', 10), (''high'', 1), (''medium'', 5)]",
          unfolded l]])
qed

text \<open>
  C2. Start from a queue made by any of the constructors and run any sequence of
  \<^verbatim>\<open>Enqueue\<close>, \<^verbatim>\<open>Dequeue\<close>, \<^verbatim>\<open>Peek\<close>, \<^verbatim>\<open>UpdatePriority\<close>, \<^verbatim>\<open>Remove\<close> and \<^verbatim>\<open>Clear\<close>
  with any handles. In every state the sequence reaches, the ordering policy is the one
  chosen at construction, and under that policy as the spec states it (the smaller or
  the larger priority, or the sign of the comparator on the values, by the flag) neither
  child \<open>2i+1\<close>, \<open>2i+2\<close> of an index \<open>i\<close> outranks the element at \<open>i\<close>; the comparisons
  made by \<^verbatim>\<open>Less\<close> say the same. A custom comparator has to keep its contract (the
  ordering it induces is a strict weak order); the built-in ordering needs no
  assumption. The sequence runs to its end without a panic when each handle it uses has
  been returned by an earlier \<^verbatim>\<open>Enqueue\<close>.
\<close>

theorem heap_invariant_maintained:
  assumes "constructed q0" and "comparator q0 \<noteq> None \<Longrightarrow> ordering_ok q0"
  shows "(\<forall>q. run ops q0 = Some q \<longrightarrow>
            heap_ordered q \<and> heap_invariant q
            \<and> comparator q = comparator q0 \<and> isMaxHeap q = isMaxHeap q0)
       \<and> (handles_allocated ops 0 \<longrightarrow> run ops q0 \<noteq> None)"
proof -
  have e0: "items q0 = []" "objs q0 = Map.empty" "nxt q0 = 0"
    using constructed_empty [OF assms(1)] by simp_all
  have i0: "well_formed q0" "positions_ok q0" "heap_invariant q0"
    using empty_invariants [OF e0] by simp_all
  have ok: "ordering_ok q0"
    using assms(2) builtin_ordering_ok [of q0] by (cases "comparator q0") simp_all
  note ri = run_invariants [OF i0(1,2), of ops]
  have "heap_ordered q \<and> heap_invariant q
          \<and> comparator q = comparator q0 \<and> isMaxHeap q = isMaxHeap q0"
    if r: "run ops q0 = Some q" for q
  proof -
    have w: "well_formed q" and f: "comparator q = comparator q0" "isMaxHeap q = isMaxHeap q0"
      and hi: "heap_invariant q"
      using ri r ok i0(3) by simp_all
    have "heap_ordered q" using heap_ordered_invariant [OF w] hi by simp
    then show ?thesis using hi f by simp
  qed
  moreover have "handles_allocated ops 0 \<longrightarrow> run ops q0 \<noteq> None" using ri e0(3) by simp
  ultimately show ?thesis by blast
qed

theorem heap_invariant_maintained_witness:
  "constructed length_queue \<and> ordering_ok length_queue \<and> handles_allocated heap_script 0
   \<and> (\<exists>q. run heap_script length_queue = Some q
          \<and> items q = [1, 4, 2, 0]
          \<and> map (\<lambda>p. map_option entry (objs q p)) (items q)
               = [Some (''hi'', 0), Some (''abcd'', 0), Some (''goodbye'', 0), Some (''hello'', 7)]
          \<and> comparator q = Some lengthComparator \<and> isMaxHeap q = False
          \<and> heap_ordered q \<and> heap_invariant q)"
proof -
  have ok: "ordering_ok length_queue"
    unfolding ordering_ok_def length_queue_def using lengthComparator_ok [of False] by simp
  have t: "(\<forall>q. run heap_script length_queue = Some q \<longrightarrow>
            heap_ordered q \<and> heap_invariant q
            \<and> comparator q = comparator length_queue \<and> isMaxHeap q = isMaxHeap length_queue)
       \<and> (handles_allocated heap_script 0 \<longrightarrow> run heap_script length_queue \<noteq> None)"
    by (rule heap_invariant_maintained [OF length_queue_constructed]) (rule ok)
  then obtain q where q: "run heap_script length_queue = Some q"
    using heap_script_allocated by blast
  have pr: "(items q, map (\<lambda>p. map_option entry (objs q p)) (items q))
       = ([1, 4, 2, 0],
          [Some (''hi'', 0), Some (''abcd'', 0), Some (''goodbye'', 0), Some (''hello'', 7)])"
    using heap_script_result unfolding q by (simp only: option.map option.inject)
  have v1: "items q = [1, 4, 2, 0]"
    using arg_cong [OF pr, of fst] by (simp only: fst_conv)
  have v2: "map (\<lambda>p. map_option entry (objs q p)) (items q)
       = [Some (''hi'', 0), Some (''abcd'', 0), Some (''goodbye'', 0), Some (''hello'', 7)]"
    using arg_cong [OF pr, of snd] by (simp only: snd_conv)
  have f: "comparator length_queue = Some lengthComparator" "isMaxHeap length_queue = False"
    by (simp_all add: length_queue_def)
  have tq: "heap_ordered q \<and> heap_invariant q
          \<and> comparator q = comparator length_queue \<and> isMaxHeap q = isMaxHeap length_queue"
    using t q by blast
  have h1: "heap_ordered q" and h2: "heap_invariant q"
    and c1: "comparator q = Some lengthComparator" and c2: "isMaxHeap q = False"
    using tq f by simp_all
  have ex: "\<exists>q. run heap_script length_queue = Some q
          \<and> items q = [1, 4, 2, 0]
          \<and> map (\<lambda>p. map_option entry (objs q p)) (items q)
               = [Some (''hi'', 0), Some (''abcd'', 0), Some (''goodbye'', 0), Some (''hello'', 7)]
          \<and> comparator q = Some lengthComparator \<and> isMaxHeap q = False
          \<and> heap_ordered q \<and> heap_invariant q"
    by (rule exI [of _ q]) (intro conjI q v1 v2 c1 c2 h1 h2)
  show ?thesis
    by (intro conjI length_queue_constructed ok heap_script_allocated ex)
qed

text \<open>
  C8. Start from a queue made by any of the constructors and run any sequence of the
  operations with any handles. In every state the sequence reaches, the item stored at
  index \<open>i\<close> of the slice has \<^verbatim>\<open>Index\<close> equal to \<open>i\<close>, for every \<open>i\<close> below the size. No
  assumption on the comparator is needed.
\<close>

theorem positions_maintained:
  assumes "constructed q0"
  shows "(\<forall>q. run ops q0 = Some q \<longrightarrow> positions_ok q)
       \<and> (handles_allocated ops 0 \<longrightarrow> run ops q0 \<noteq> None)"
proof -
  have e0: "items q0 = []" "objs q0 = Map.empty" "nxt q0 = 0"
    using constructed_empty [OF assms(1)] by simp_all
  have i0: "well_formed q0" "positions_ok q0"
    using empty_invariants [OF e0] by simp_all
  show ?thesis using run_invariants [OF i0(1,2), of ops] e0(3) by simp
qed

theorem positions_maintained_witness:
  "constructed plain_queue \<and> handles_allocated example_script 0
   \<and> (\<exists>q. run example_script plain_queue = Some q \<and> positions_ok q)"
  using positions_maintained [OF plain_queue_constructed, of example_script]
    plain_queue_constructed example_script_allocated
  by auto

text \<open>
  C5. A handle whose \<^verbatim>\<open>Index\<close> is negative or not below the size of the queue:
  \<^verbatim>\<open>UpdatePriority\<close> returns with the state unchanged and has no result to signal
  anything with, \<^verbatim>\<open>Remove\<close> returns the not-found result with the state unchanged.
\<close>

theorem stale_handle_asymmetry:
  assumes "objs q h = Some it"
    and "Index it < 0 \<or> Index it \<ge> int (length (items q))"
  shows "UpdatePriority q h p = Some q \<and> Remove q h = Some (NotFound, q)"
  using assms by (auto simp: UpdatePriority_def Remove_def)

theorem stale_handle_asymmetry_witness:
  "objs after_dequeue 0 = Some \<lparr>Value = ''a'', Priority = 1, Index = - 1\<rparr>
   \<and> UpdatePriority after_dequeue 0 7 = Some after_dequeue
   \<and> Remove after_dequeue 0 = Some (NotFound, after_dequeue)"
proof -
  have o: "objs after_dequeue 0 = Some \<lparr>Value = ''a'', Priority = 1, Index = - 1\<rparr>"
    by (simp add: after_dequeue_def)
  show ?thesis using stale_handle_asymmetry [OF o, of 7] o by simp
qed

text \<open>
  C6. On an empty queue \<^verbatim>\<open>Dequeue\<close> and \<^verbatim>\<open>Peek\<close> return the not-found result (the zero
  value with \<^verbatim>\<open>false\<close>) without a panic, and the state is unchanged.
\<close>

theorem empty_queue_access:
  "IsEmpty q \<Longrightarrow> Dequeue q = Some (NotFound, q) \<and> Peek q = Some (NotFound, q) \<and> Size q = 0"
  by (simp add: IsEmpty_def Dequeue_def Peek_def Size_def Len_def)

theorem empty_queue_access_witness:
  "IsEmpty plain_queue \<and> New = Some plain_queue
   \<and> Dequeue plain_queue = Some (NotFound, plain_queue)
   \<and> Peek plain_queue = Some (NotFound, plain_queue)"
proof -
  have e: "IsEmpty plain_queue" by (simp add: IsEmpty_def plain_queue_def)
  show ?thesis using empty_queue_access [OF e] e by (simp add: New_eq plain_queue_def)
qed

text \<open>
  C9. On a non-empty queue any number of \<^verbatim>\<open>Peek\<close> calls in a row all return the value of
  the element at the root with the success flag, and the state after them is the
  state before them.
\<close>

theorem Peek_idempotent:
  assumes "well_formed q" and "items q \<noteq> []"
  shows "\<exists>it. objs q (items q ! 0) = Some it
           \<and> Peek_repeat n q = Some (replicate n (Found (Value it)), q)"
proof -
  obtain it where it: "objs q (items q ! 0) = Some it" "Peek q = Some (Found (Value it), q)"
    using Peek_result [OF assms] by blast
  have "Peek_repeat n q = Some (replicate n (Found (Value it)), q)"
    by (induction n) (simp_all add: it(2))
  then show ?thesis using it(1) by blast
qed

theorem Peek_idempotent_witness:
  "well_formed after_dequeue \<and> items after_dequeue \<noteq> []
   \<and> Peek_repeat 3 after_dequeue = Some ([Found ''b'', Found ''b'', Found ''b''], after_dequeue)"
proof -
  have w: "well_formed after_dequeue"
    unfolding well_formed_def after_dequeue_def by (auto simp: less_Suc_eq numeral_2_eq_2)
  have ne: "items after_dequeue \<noteq> []" by (simp add: after_dequeue_def)
  have o: "objs after_dequeue (items after_dequeue ! 0) = Some \<lparr>Value = ''b'', Priority = 2, Index = 0\<rparr>"
    by (simp add: after_dequeue_def)
  show ?thesis using Peek_idempotent [OF w ne, of 3] w ne o
    by (auto simp: numeral_3_eq_3)
qed

text \<open>
  C10. \<^verbatim>\<open>UpdatePriority\<close> with a handle whose \<^verbatim>\<open>Index\<close> is within the bounds of the queue
  succeeds and leaves the size, the slice as a multiset of items and so the multiset of
  stored values, the ordering policy, the value of every item and the priority of every
  item but the handle's unchanged; the handle's priority is the new one; an item that is
  not in the slice and is not the handle is unchanged altogether.
\<close>

theorem UpdatePriority_frame:
  assumes "well_formed q" and "objs q h = Some ith"
    and "0 \<le> Index ith" and "Index ith < int (length (items q))"
  shows "\<exists>q'. UpdatePriority q h p = Some q' \<and> Size q' = Size q
           \<and> mset (items q') = mset (items q)
           \<and> image_mset (\<lambda>a. map_option Value (objs q' a)) (mset (items q'))
               = image_mset (\<lambda>a. map_option Value (objs q a)) (mset (items q))
           \<and> comparator q' = comparator q \<and> isMaxHeap q' = isMaxHeap q
           \<and> (\<forall>a. map_option Value (objs q' a) = map_option Value (objs q a))
           \<and> (\<forall>a. a \<noteq> h \<longrightarrow> map_option Priority (objs q' a) = map_option Priority (objs q a))
           \<and> map_option Priority (objs q' h) = Some p
           \<and> (\<forall>a. a \<notin> set (items q) \<and> a \<noteq> h \<longrightarrow> objs q' a = objs q a)"
proof -
  obtain q' where r: "UpdatePriority q h p = Some q'"
      "comparator q' = comparator q" "isMaxHeap q' = isMaxHeap q"
      "mset (items q') = mset (items q)"
      "\<forall>a. map_option Value (objs q' a) = map_option Value (objs q a)"
      "\<forall>a. a \<noteq> h \<longrightarrow> map_option Priority (objs q' a) = map_option Priority (objs q a)"
      "map_option Priority (objs q' h) = Some p"
      "\<forall>a. a \<notin> set (items q) \<and> a \<noteq> h \<longrightarrow> objs q' a = objs q a"
    using UpdatePriority_result [OF assms, of p] by blast
  have "length (items q') = length (items q)" using r(4) by (metis mset_eq_length)
  then have sz: "Size q' = Size q" by (simp add: Size_def Len_def)
  have "(\<lambda>a. map_option Value (objs q' a)) = (\<lambda>a. map_option Value (objs q a))"
    using r(5) by (simp add: fun_eq_iff)
  then have im: "image_mset (\<lambda>a. map_option Value (objs q' a)) (mset (items q'))
               = image_mset (\<lambda>a. map_option Value (objs q a)) (mset (items q))"
    using r(4) by simp
  show ?thesis using r sz im by blast
qed

theorem UpdatePriority_frame_witness:
  "well_formed after_dequeue
   \<and> objs after_dequeue 1 = Some \<lparr>Value = ''b'', Priority = 2, Index = 0\<rparr>
   \<and> (\<exists>q'. UpdatePriority after_dequeue 1 9 = Some q' \<and> Size q' = Size after_dequeue
          \<and> map_option Priority (objs q' 1) = Some 9
          \<and> map_option Priority (objs q' 0) = Some 1
          \<and> map_option Value (objs q' 1) = Some ''b'')"
proof -
  have o: "objs after_dequeue 1 = Some \<lparr>Value = ''b'', Priority = 2, Index = 0\<rparr>"
    by (simp add: after_dequeue_def)
  have i: "0 \<le> Index \<lparr>Value = ''b'', Priority = 2, Index = 0\<rparr>"
    "Index \<lparr>Value = ''b'', Priority = 2, Index = 0\<rparr> < int (length (items after_dequeue))"
    by (simp_all add: after_dequeue_def)
  obtain q' where r: "UpdatePriority after_dequeue 1 9 = Some q'" "Size q' = Size after_dequeue"
      "\<forall>a. map_option Value (objs q' a) = map_option Value (objs after_dequeue a)"
      "\<forall>a. a \<noteq> 1 \<longrightarrow> map_option Priority (objs q' a) = map_option Priority (objs after_dequeue a)"
      "map_option Priority (objs q' 1) = Some 9"
    using UpdatePriority_frame [OF after_dequeue_well_formed o i, of 9] by blast
  have "map_option Priority (objs q' 0) = Some 1" using r(4) by (simp add: after_dequeue_def)
  moreover have "map_option Value (objs q' 1) = Some ''b''" using r(3) by (simp add: after_dequeue_def)
  ultimately show ?thesis using after_dequeue_well_formed o r(1,2,5) by blast
qed

text \<open>
  C7. A queue made by \<^verbatim>\<open>NewWithComparator\<close> with a comparator keeps that comparator and
  its flag through every sequence of operations. In every state reached, \<^verbatim>\<open>Less\<close>, the
  only comparison of the heap, says that the element at \<open>i\<close> outranks the element at
  \<open>j\<close> exactly when the comparator applied to their values is negative (flag off,
  ascending) or positive (flag on, descending). Writing any priority into any item
  changes no result of \<^verbatim>\<open>Less\<close>; and \<^verbatim>\<open>UpdatePriority\<close> with a live handle still stores
  the new priority in the item.
\<close>

theorem custom_comparator_ordering:
  assumes "NewWithComparator (Some cmp) m = Some q0" and "run ops q0 = Some q"
  shows "comparator q = Some cmp \<and> isMaxHeap q = m
       \<and> (\<forall>i j a b. item_at q i = Some a \<and> item_at q j = Some b \<longrightarrow>
             Less q i j = Some (if m then cmp (Value a) (Value b) > 0
                                else cmp (Value a) (Value b) < 0))
       \<and> (\<forall>h it pr i j. objs q h = Some it \<longrightarrow>
             Less (q\<lparr>objs := (objs q)(h \<mapsto> it\<lparr>Priority := pr\<rparr>)\<rparr>) i j = Less q i j)
       \<and> (\<forall>h it pr. objs q h = Some it \<and> 0 \<le> Index it \<and> Index it < int (length (items q)) \<longrightarrow>
             (\<exists>q'. UpdatePriority q h pr = Some q' \<and> map_option Priority (objs q' h) = Some pr))"
proof -
  have q0: "q0 = \<lparr>items = [], comparator = Some cmp, isMaxHeap = m, objs = Map.empty, nxt = 0\<rparr>"
    using assms(1) unfolding NewWithComparator_eq by simp
  have e0: "items q0 = []" "objs q0 = Map.empty" "nxt q0 = 0" unfolding q0 by simp_all
  have i0: "well_formed q0" "positions_ok q0" using empty_invariants [OF e0] by simp_all
  have r: "well_formed q" "comparator q = comparator q0" "isMaxHeap q = isMaxHeap q0"
    using run_invariants [OF i0, of ops] assms(2) by simp_all
  have c: "comparator q = Some cmp" "isMaxHeap q = m" using r(2,3) unfolding q0 by simp_all
  have a: "Less q i j = Some (if m then cmp (Value a) (Value b) > 0 else cmp (Value a) (Value b) < 0)"
    if "item_at q i = Some a" "item_at q j = Some b" for i j a b
    using that c by (simp add: Less_def)
  have b: "Less (q\<lparr>objs := (objs q)(h \<mapsto> it\<lparr>Priority := pr\<rparr>)\<rparr>) i j = Less q i j"
    if "objs q h = Some it" for h it pr i j
    using that c by (simp add: Less_def item_at_def)
  have d: "\<exists>q'. UpdatePriority q h pr = Some q' \<and> map_option Priority (objs q' h) = Some pr"
    if "objs q h = Some it" "0 \<le> Index it" "Index it < int (length (items q))" for h it pr
    using UpdatePriority_result [OF r(1) that, of pr] by blast
  show ?thesis using c a b d by blast
qed

theorem custom_comparator_ordering_witness:
  "NewWithComparator (Some lengthComparator) False = Some length_queue
   \<and> (\<exists>q. run [OpEnqueue ''hello'' 0, OpEnqueue ''hi'' 0] length_queue = Some q
          \<and> comparator q = Some lengthComparator \<and> isMaxHeap q = False
          \<and> items q = [1, 0] \<and> Less q 0 1 = Some True \<and> Less q 1 0 = Some False)"
proof -
  have n: "NewWithComparator (Some lengthComparator) False = Some length_queue"
    unfolding NewWithComparator_eq length_queue_def by simp
  define q :: "string PriorityQueue" where
    "q = \<lparr>items = [1, 0], comparator = Some lengthComparator, isMaxHeap = False,
          objs = [0 \<mapsto> \<lparr>Value = ''hello'', Priority = 0, Index = 1\<rparr>,
                  1 \<mapsto> \<lparr>Value = ''hi'', Priority = 0, Index = 0\<rparr>], nxt = 2\<rparr>"
  have r: "run [OpEnqueue ''hello'' 0, OpEnqueue ''hi'' 0] length_queue = Some q"
    by (simp add: length_queue_def q_def Enqueue_def heap_Push_def Push_def set_Index_def Less_def
          item_at_def Swap_def Len_def Let_def lengthComparator_def up.simps fun_upd_twist)
  have i: "item_at q 0 = Some \<lparr>Value = ''hi'', Priority = 0, Index = 0\<rparr>"
    "item_at q 1 = Some \<lparr>Value = ''hello'', Priority = 0, Index = 1\<rparr>"
    by (simp_all add: item_at_def q_def)
  note t = custom_comparator_ordering [OF n r]
  have "Less q 0 1 = Some True" using t i by (simp add: lengthComparator_def)
  moreover have "Less q 1 0 = Some False" using t i by (simp add: lengthComparator_def)
  moreover have "items q = [1, 0]" by (simp add: q_def)
  ultimately show ?thesis using n r t by blast
qed

text \<open>
  C4 at a failing input: \<^verbatim>\<open>New\<close>, \<^verbatim>\<open>h := Enqueue("a", 1)\<close>, \<^verbatim>\<open>Clear\<close>. The size is zero,
  but the handle's \<^verbatim>\<open>Index\<close> is still \<open>0\<close>: \<^verbatim>\<open>Clear\<close> truncates the slice and writes no
  item, where \<^verbatim>\<open>Pop\<close> sets the \<^verbatim>\<open>Index\<close> of the item it removes to \<open>-1\<close>.
\<close>

theorem Clear_keeps_Index:
  "do { q0 \<leftarrow> New; (h, q1) \<leftarrow> Enqueue q0 ''a'' 1; q2 \<leftarrow> Clear q1;
        Some (Size q2, map_option Index (objs q2 h)) }
   = Some (0, Some 0)"
  by (simp add: New_eq Enqueue_def heap_Push_def Push_def set_Index_def Len_def Let_def
        up.simps Clear_result Size_def)

text \<open>
  C3 at a failing input: \<^verbatim>\<open>New\<close>, \<^verbatim>\<open>h := Enqueue("a", 1)\<close>, \<^verbatim>\<open>Clear\<close>, \<^verbatim>\<open>Enqueue("b", 2)\<close>,
  \<^verbatim>\<open>Remove(h)\<close>. The handle was consumed by \<^verbatim>\<open>Clear\<close>, yet \<^verbatim>\<open>Remove\<close> reports success,
  returns the value of the other element and takes that element out of the queue.
\<close>

theorem Remove_after_Clear_removes_live:
  "do { q0 \<leftarrow> New; (h, q1) \<leftarrow> Enqueue q0 ''a'' 1; q2 \<leftarrow> Clear q1;
        (h', q3) \<leftarrow> Enqueue q2 ''b'' 2; (r, q4) \<leftarrow> Remove q3 h;
        Some (h, h', Size q3, r, Size q4) }
   = Some (0, 1, 1, Found ''b'', 0)"
  by (simp add: New_eq Enqueue_def heap_Push_def Push_def set_Index_def Len_def Let_def
        up.simps Clear_result Size_def Remove_def heap_Remove_def Pop_def)

end
